theory Spec2Isabelle
  imports Main "HOL-Library.AList"
begin

section \<open>The process pool of Pebble: data model\<close>

text \<open>
  The development follows \<^verbatim>\<open>pebble/process/pool.py\<close>. Python dictionaries are
  association lists in insertion order (\<^const>\<open>AList.update\<close> assigns a key in place or
  appends it, \<^const>\<open>AList.delete\<close> pops it, \<^const>\<open>map_of\<close> looks it up). Wall-clock time
  is an integer number of clock units, and \<^verbatim>\<open>time.time()\<close> is a parameter \<open>now\<close> of the
  operations that read the clock.
\<close>

type_synonym time = int

datatype error = KeyError | TypeError

text \<open>
  The scratch slot \<^verbatim>\<open>_metadata\<close> of a task handle is dynamically typed: it holds the
  payload (function, arguments, keyword arguments) until \<^verbatim>\<open>task_start\<close> stores the
  identifier of the owning worker there.
\<close>

datatype 'p metadata = Payload 'p | WorkerId nat

text \<open>
  Modelled from the spec: the class \<^verbatim>\<open>Task\<close>, which lives in another module of Pebble.
  The record has the attributes that the pool reads and writes:
  \<^verbatim>\<open>number\<close>, \<^verbatim>\<open>timeout\<close> (an optional non-negative duration, zero or absent meaning
  none), \<^verbatim>\<open>cancelled\<close>, \<^verbatim>\<open>_metadata\<close> and \<^verbatim>\<open>_timestamp\<close>.
\<close>

record 'p task =
  number :: nat
  timeout :: "nat option"
  cancelled :: bool
  metadata :: "'p metadata"
  timestamp :: time

text \<open>
  Modelled from the spec: the property \<^verbatim>\<open>Task.started\<close>. A fresh handle is not started,
  and one whose \<^verbatim>\<open>_timestamp\<close> has been set is (\<^verbatim>\<open>test_started\<close>, \<^verbatim>\<open>test_not_started\<close>).
\<close>

definition started :: "'p task \<Rightarrow> bool" where
  "started t = (0 < timestamp t)"

text \<open>The payload a handle still carries, if any.\<close>

definition task_payload :: "'p task \<Rightarrow> 'p option" where
  "task_payload t = (case metadata t of Payload p \<Rightarrow> Some p | WorkerId _ \<Rightarrow> None)"

text \<open>
  What \<^verbatim>\<open>set_results\<close> receives: the value or error a worker ships back, or one of the
  exceptions built by the pool manager.
\<close>

datatype 'r outcome =
    Returned 'r
  | TimeoutError string
  | TaskCancelled string
  | ProcessExpired string "int option"

text \<open>The named tuples sent over the channel, with their fields in the source's order.\<close>

datatype ('m, 'r) message =
    NoMessage
  | NewTask nat 'm
  | Results nat 'r
  | Acknowledgement nat nat

text \<open>
  A worker process as the pool sees it; its pid is the key of the workers' dictionary
  (the only insertion is \<^verbatim>\<open>self.workers[worker.pid] = worker\<close>). The exit code is
  \<^verbatim>\<open>None\<close> as long as the process runs.
\<close>

record worker =
  is_alive :: bool
  exitcode :: "int option"

text \<open>
  The state of a \<^verbatim>\<open>PoolManager\<close>: the dictionaries of its task manager and worker
  manager, and the effects on its collaborators, each as a log:
  \<^item> \<open>set_results\<close>: the calls \<^verbatim>\<open>task.set_results(results)\<close>, oldest first;
  \<^item> \<open>queue_done\<close>: how often \<^verbatim>\<open>task_queue.task_done()\<close> ran (it is also the task
    manager's \<^verbatim>\<open>task_done_callback\<close>);
  \<^item> \<open>pool_channel\<close>: the messages sent on the pool endpoint, oldest first;
  \<^item> \<open>stopped\<close>: the pids handed to \<^verbatim>\<open>stop\<close>, oldest first;
  \<^item> \<open>spawned\<close>: how many worker processes were spawned.
\<close>

record ('p, 'r) pool_manager =
  tasks :: "(nat \<times> 'p task) list"
  set_results :: "('p task \<times> 'r outcome) list"
  queue_done :: nat
  workers :: "(nat \<times> worker) list"
  workers_number :: nat
  pool_channel :: "('p metadata, 'r outcome) message list"
  stopped :: "nat list"
  spawned :: nat

text \<open>The state built by \<^verbatim>\<open>PoolManager.__init__\<close> for \<open>n\<close> workers: both dictionaries empty.\<close>

definition pool_manager_init :: "nat \<Rightarrow> ('p, 'r) pool_manager" where
  "pool_manager_init n =
     \<lparr>tasks = [], set_results = [], queue_done = 0, workers = [], workers_number = n,
      pool_channel = [], stopped = [], spawned = 0\<rparr>"

section \<open>TaskManager\<close>

definition register :: "'p task \<Rightarrow> ('p, 'r) pool_manager \<Rightarrow> ('p, 'r) pool_manager" where
  "register task s = s\<lparr>tasks := AList.update (number task) task (tasks s)\<rparr>"

text \<open>\<^verbatim>\<open>self.tasks[task_id]\<close> raises \<^verbatim>\<open>KeyError\<close> for a missing key.\<close>

definition task_start ::
  "nat \<Rightarrow> nat \<Rightarrow> time \<Rightarrow> ('p, 'r) pool_manager \<Rightarrow> error + ('p, 'r) pool_manager" where
  "task_start task_id worker_id now s =
     (case map_of (tasks s) task_id of
        None \<Rightarrow> Inl KeyError
      | Some task \<Rightarrow>
          Inr (s\<lparr>tasks := AList.update task_id
                  (task\<lparr>metadata := WorkerId worker_id, timestamp := now\<rparr>) (tasks s)\<rparr>))"

definition task_done ::
  "nat \<Rightarrow> 'r outcome \<Rightarrow> ('p, 'r) pool_manager \<Rightarrow> ('p, 'r) pool_manager" where
  "task_done task_id results s =
     (case map_of (tasks s) task_id of
        None \<Rightarrow> s
      | Some task \<Rightarrow>
          s\<lparr>tasks := AList.delete task_id (tasks s),
            set_results := set_results s @ [(task, results)],
            queue_done := Suc (queue_done s)\<rparr>)"

definition has_timeout :: "time \<Rightarrow> 'p task \<Rightarrow> bool" where
  "has_timeout now task =
     (if timeout task \<noteq> None \<and> timeout task \<noteq> Some 0 \<and> started task
      then now - timestamp task > int (the (timeout task))
      else False)"

definition inspect_tasks ::
  "time \<Rightarrow> ('p, 'r) pool_manager \<Rightarrow> 'p task list \<times> 'p task list" where
  "inspect_tasks now s =
     (let ts = map snd (tasks s)
      in (filter (has_timeout now) ts, filter (\<lambda>t. started t \<and> cancelled t) ts))"

section \<open>WorkerManager\<close>

definition dispatch :: "'p task \<Rightarrow> ('p, 'r) pool_manager \<Rightarrow> ('p, 'r) pool_manager" where
  "dispatch task s =
     s\<lparr>pool_channel := pool_channel s @ [NewTask (number task) (metadata task)]\<rparr>"

text \<open>
  \<^verbatim>\<open>inspect_workers\<close> pops the workers that are no longer alive and reports those with a
  non-zero exit code.
\<close>

definition expired :: "('p, 'r) pool_manager \<Rightarrow> (nat \<times> worker) list" where
  "expired s = filter (\<lambda>(pid, w). \<not> is_alive w) (workers s)"

definition inspect_workers ::
  "('p, 'r) pool_manager \<Rightarrow> (nat \<times> int option) list \<times> ('p, 'r) pool_manager" where
  "inspect_workers s =
     (map (\<lambda>(pid, w). (pid, exitcode w))
        (filter (\<lambda>(pid, w). exitcode w \<noteq> Some 0) (expired s)),
      s\<lparr>workers := fold (\<lambda>(pid, w). AList.delete pid) (expired s) (workers s)\<rparr>)"

text \<open>
  \<^verbatim>\<open>new_worker\<close> spawns a process and files it under its pid. The pids come from the
  operating system: \<open>pids k\<close> is the pid of the \<open>k\<close>-th process spawned.
\<close>

definition new_worker ::
  "(nat \<Rightarrow> nat) \<Rightarrow> ('p, 'r) pool_manager \<Rightarrow> ('p, 'r) pool_manager" where
  "new_worker pids s =
     s\<lparr>workers := AList.update (pids (spawned s)) \<lparr>is_alive = True, exitcode = None\<rparr> (workers s),
       spawned := Suc (spawned s)\<rparr>"

text \<open>\<^verbatim>\<open>range\<close> of a negative number is empty, as the truncating difference is zero.\<close>

definition create_workers ::
  "(nat \<Rightarrow> nat) \<Rightarrow> ('p, 'r) pool_manager \<Rightarrow> ('p, 'r) pool_manager" where
  "create_workers pids s =
     ((new_worker pids) ^^ (workers_number s - length (workers s))) s"

text \<open>
  \<^verbatim>\<open>stop_worker\<close> pops the worker and stops it; a missing key is ignored. Its argument
  is whatever a task's \<^verbatim>\<open>_metadata\<close> holds: a payload there is no key of the dictionary,
  and being a tuple with the dictionary of keyword arguments inside it cannot be hashed,
  so that \<^verbatim>\<open>pop\<close> raises \<^verbatim>\<open>TypeError\<close>, which the handler for \<^verbatim>\<open>KeyError\<close> lets through.

  Modelled from the spec: \<^verbatim>\<open>stop\<close> of \<^verbatim>\<open>pebble.process.utils\<close>, which sends the termination
  signal to the process; the model records the pid.
\<close>

definition stop_worker ::
  "'p metadata \<Rightarrow> ('p, 'r) pool_manager \<Rightarrow> error + ('p, 'r) pool_manager" where
  "stop_worker worker_id s =
     (case worker_id of
        Payload _ \<Rightarrow> Inl TypeError
      | WorkerId pid \<Rightarrow>
          (case map_of (workers s) pid of
             None \<Rightarrow> Inr s
           | Some w \<Rightarrow>
               Inr (s\<lparr>workers := AList.delete pid (workers s),
                      stopped := stopped s @ [pid]\<rparr>)))"

fun stop_each ::
  "'p metadata list \<Rightarrow> ('p, 'r) pool_manager \<Rightarrow> error + ('p, 'r) pool_manager" where
  "stop_each [] s = Inr s"
| "stop_each (worker_id # rest) s =
     (case stop_worker worker_id s of
        Inl e \<Rightarrow> Inl e
      | Inr s' \<Rightarrow> stop_each rest s')"

section \<open>PoolManager\<close>

definition schedule :: "'p task \<Rightarrow> ('p, 'r) pool_manager \<Rightarrow> ('p, 'r) pool_manager" where
  "schedule task s = dispatch task (register task s)"

definition process_message ::
  "('p metadata, 'r outcome) message \<Rightarrow> time \<Rightarrow> ('p, 'r) pool_manager
     \<Rightarrow> error + ('p, 'r) pool_manager" where
  "process_message m now s =
     (case m of
        Acknowledgement worker_id task_id \<Rightarrow> task_start task_id worker_id now s
      | Results task_id results \<Rightarrow> Inr (task_done task_id results s)
      | _ \<Rightarrow> Inr s)"

definition update_tasks ::
  "time \<Rightarrow> ('p, 'r) pool_manager \<Rightarrow> error + ('p, 'r) pool_manager" where
  "update_tasks now s =
     (case inspect_tasks now s of
        (timed_out, cancelled_running) \<Rightarrow>
          stop_each (map metadata (timed_out @ cancelled_running))
            (fold (\<lambda>t. task_done (number t) (TaskCancelled ''Cancelled'')) cancelled_running
              (fold (\<lambda>t. task_done (number t) (TimeoutError ''Timeout'')) timed_out s)))"

definition worker_id_lookup :: "nat \<Rightarrow> ('p, 'r) pool_manager \<Rightarrow> 'p task option" where
  "worker_id_lookup worker_id s =
     find (\<lambda>t. metadata t = WorkerId worker_id) (map snd (tasks s))"

definition handle_worker_expiration ::
  "nat \<times> int option \<Rightarrow> ('p, 'r) pool_manager \<Rightarrow> ('p, 'r) pool_manager" where
  "handle_worker_expiration expiration s =
     (case expiration of
        (worker_id, code) \<Rightarrow>
          (case worker_id_lookup worker_id s of
             None \<Rightarrow> s
           | Some task \<Rightarrow>
               task_done (number task) (ProcessExpired ''Abnormal termination'' code) s))"

definition update_workers ::
  "(nat \<Rightarrow> nat) \<Rightarrow> ('p, 'r) pool_manager \<Rightarrow> ('p, 'r) pool_manager" where
  "update_workers pids s =
     (case inspect_workers s of
        (expirations, s') \<Rightarrow> create_workers pids (fold handle_worker_expiration expirations s'))"

section \<open>The scheduler loop\<close>

text \<open>
  The loop reads the environment twice per round: the flag \<^verbatim>\<open>context.alive\<close> at the
  loop test, then the item \<^verbatim>\<open>task_queue.get()\<close> returns (\<open>None\<close> is Python's
  \<^verbatim>\<open>None\<close>, a task is the handle as it is when retrieved). A run is driven by the list
  of these readings; when the list is used up the loop is blocked in \<^verbatim>\<open>get\<close>. The
  generator \<^verbatim>\<open>pool_get_next_task\<close> and its consumer \<^verbatim>\<open>task_scheduler_loop\<close> run
  interleaved, as one recursion.
\<close>

datatype loop_status = Exited | Blocked

fun task_scheduler_loop ::
  "(bool \<times> 'p task option) list \<Rightarrow> ('p, 'r) pool_manager
     \<Rightarrow> loop_status \<times> ('p, 'r) pool_manager" where
  "task_scheduler_loop [] s = (Blocked, s)"
| "task_scheduler_loop ((alive, item) # rest) s =
     (if alive then
        (case item of
           Some task \<Rightarrow>
             (if \<not> cancelled task then task_scheduler_loop rest (schedule task s)
              else task_scheduler_loop rest (s\<lparr>queue_done := Suc (queue_done s)\<rparr>))
         | None \<Rightarrow> task_scheduler_loop rest (s\<lparr>queue_done := Suc (queue_done s)\<rparr>))
      else (Exited, s))"

section \<open>Runs of the pool manager\<close>

text \<open>
  What a dictionary filled by \<^verbatim>\<open>register\<close> looks like: no key twice, and every task
  filed under its own number.
\<close>

definition table_ok :: "(nat \<times> 'p task) list \<Rightarrow> bool" where
  "table_ok ts = (distinct (map fst ts) \<and> (\<forall>(k, t) \<in> set ts. number t = k))"

text \<open>
  The spec's words for a timed-out task: started, with a positive timeout that the time
  since \<^verbatim>\<open>_timestamp\<close> exceeds.
\<close>

definition spec_timed_out :: "time \<Rightarrow> 'p task \<Rightarrow> bool" where
  "spec_timed_out now t =
     (started t \<and> (case timeout t of None \<Rightarrow> False
                     | Some d \<Rightarrow> 0 < d \<and> int d < now - timestamp t))"

text \<open>
  The tasks of the table that have been started carry a worker's pid in \<^verbatim>\<open>_metadata\<close> and
  no payload any more: \<^verbatim>\<open>task_start\<close> writes both attributes together.
\<close>

definition claimed_ok :: "(nat \<times> 'p task) list \<Rightarrow> bool" where
  "claimed_ok ts = (\<forall>(k, t) \<in> set ts. started t \<longrightarrow> task_payload t = None)"

text \<open>How often \<^verbatim>\<open>set_results\<close> has been called on the task numbered \<open>n\<close>.\<close>

definition resolved :: "nat \<Rightarrow> ('p, 'r) pool_manager \<Rightarrow> nat" where
  "resolved n s = length (filter (\<lambda>(t, r). number t = n) (set_results s))"

text \<open>
  The spec's words for \<^verbatim>\<open>update_workers\<close>: the abnormally expired workers are those
  that are no longer alive and have a non-zero exit code; each of them that owns a task
  (the task found by scanning the table for a matching \<^verbatim>\<open>_metadata\<close>) has this task
  resolved with \<^verbatim>\<open>ProcessExpired\<close>, the others are dropped.
\<close>

definition abnormal :: "('p, 'r) pool_manager \<Rightarrow> (nat \<times> int option) list" where
  "abnormal s =
     map (\<lambda>(pid, w). (pid, exitcode w))
       (filter (\<lambda>(pid, w). \<not> is_alive w \<and> exitcode w \<noteq> Some 0) (workers s))"

fun expired_outcomes ::
  "(nat \<times> int option) list \<Rightarrow> ('p, 'r) pool_manager \<Rightarrow> ('p task \<times> 'r outcome) list" where
  "expired_outcomes [] s = []"
| "expired_outcomes ((pid, code) # es) s =
     (case find (\<lambda>t. metadata t = WorkerId pid) (map snd (tasks s)) of
        None \<Rightarrow> expired_outcomes es s
      | Some t \<Rightarrow> (t, ProcessExpired ''Abnormal termination'' code) # expired_outcomes es s)"

definition alive_workers :: "('p, 'r) pool_manager \<Rightarrow> (nat \<times> worker) list" where
  "alive_workers s = filter (\<lambda>(pid, w). is_alive w) (workers s)"

text \<open>
  The calls of \<^verbatim>\<open>set_results\<close> made for number \<open>n\<close>, plus the one still owed when \<open>n\<close> is
  in the table.
\<close>

definition pending :: "nat \<Rightarrow> ('p, 'r) pool_manager \<Rightarrow> nat" where
  "pending n s = resolved n s + (if n \<in> fst ` set (tasks s) then 1 else 0)"

text \<open>
  Modelled from the spec: the environment of the pool manager. A user cancels the handle
  numbered \<open>n\<close> (\<^verbatim>\<open>Task.cancel\<close> sets the flag \<^verbatim>\<open>cancelled\<close> of the handle); the worker
  process \<open>pid\<close> ends with an exit code.
\<close>

definition cancel :: "nat \<Rightarrow> ('p, 'r) pool_manager \<Rightarrow> ('p, 'r) pool_manager" where
  "cancel n s =
     s\<lparr>tasks := map (\<lambda>(k, t). (k, if number t = n then t\<lparr>cancelled := True\<rparr> else t)) (tasks s)\<rparr>"

definition exit_worker :: "nat \<Rightarrow> int \<Rightarrow> ('p, 'r) pool_manager \<Rightarrow> ('p, 'r) pool_manager" where
  "exit_worker pid code s =
     s\<lparr>workers := map (\<lambda>(k, w). (k, if k = pid then w\<lparr>is_alive := False, exitcode := Some code\<rparr>
                                    else w)) (workers s)\<rparr>"

text \<open>
  One event in the life of the pool manager: a call from one of the three loops
  (\<^verbatim>\<open>schedule\<close> from the scheduler loop, \<^verbatim>\<open>process_message\<close> from the message loop,
  \<^verbatim>\<open>update_tasks\<close> and \<^verbatim>\<open>update_workers\<close> from the status loop) or a move of the
  environment. A run is a list of events; an exception ends it.
\<close>

datatype ('p, 'r) event =
    Schedule "'p task"
  | Message "('p metadata, 'r outcome) message" time
  | Update_tasks time
  | Update_workers
  | Cancel nat
  | Exit_worker nat int

fun step ::
  "(nat \<Rightarrow> nat) \<Rightarrow> ('p, 'r) event \<Rightarrow> ('p, 'r) pool_manager \<Rightarrow> error + ('p, 'r) pool_manager" where
  "step pids (Schedule task) s = Inr (schedule task s)"
| "step pids (Message m now) s = process_message m now s"
| "step pids (Update_tasks now) s = update_tasks now s"
| "step pids Update_workers s = Inr (update_workers pids s)"
| "step pids (Cancel n) s = Inr (cancel n s)"
| "step pids (Exit_worker pid code) s = Inr (exit_worker pid code s)"

fun run ::
  "(nat \<Rightarrow> nat) \<Rightarrow> ('p, 'r) event list \<Rightarrow> ('p, 'r) pool_manager
     \<Rightarrow> error + ('p, 'r) pool_manager" where
  "run pids [] s = Inr s"
| "run pids (ev # evs) s =
     (case step pids ev s of
        Inl e \<Rightarrow> Inl e
      | Inr s' \<Rightarrow> run pids evs s')"

fun scheduled :: "nat \<Rightarrow> ('p, 'r) event list \<Rightarrow> nat" where
  "scheduled n [] = 0"
| "scheduled n (Schedule task # evs) = (if number task = n then 1 else 0) + scheduled n evs"
| "scheduled n (_ # evs) = scheduled n evs"

text \<open>
  The spec's words for one round of the scheduler loop: a null item or a cancelled task
  is marked done in the queue and not dispatched, any other task is scheduled.
\<close>

definition scheduler_round ::
  "'p task option \<Rightarrow> ('p, 'r) pool_manager \<Rightarrow> ('p, 'r) pool_manager" where
  "scheduler_round item s =
     (case item of
        None \<Rightarrow> s\<lparr>queue_done := Suc (queue_done s)\<rparr>
      | Some task \<Rightarrow>
          if cancelled task then s\<lparr>queue_done := Suc (queue_done s)\<rparr> else schedule task s)"

text \<open>The \<^verbatim>\<open>NewTask\<close> messages for the task numbered \<open>n\<close>.\<close>

fun new_task_for :: "nat \<Rightarrow> ('m, 'r) message \<Rightarrow> bool" where
  "new_task_for n (NewTask k _) = (k = n)"
| "new_task_for n _ = False"

section \<open>The submission queue and \<^verbatim>\<open>Pool.stop\<close>\<close>

text \<open>
  The scheduler thread and the part of the pool's context it reads: the flag
  \<^verbatim>\<open>context.alive\<close>, the submission queue, where the thread stands in
  \<^verbatim>\<open>pool_get_next_task\<close> (at the loop test, in \<^verbatim>\<open>task_queue.get()\<close>, or past the loop),
  and what it has read so far. A reading is the value of the flag at a loop test and
  the item that \<^verbatim>\<open>get\<close> then returned; a test that finds the flag false reads no item
  and is recorded as \<open>(False, None)\<close>. The readings are what \<^const>\<open>task_scheduler_loop\<close>
  is driven by.
\<close>

datatype position = At_test | At_get | At_end

record 'p scheduler =
  alive :: bool
  task_queue :: "'p task option list"
  position :: position
  readings :: "(bool \<times> 'p task option) list"

text \<open>
  The atomic steps of the threads that work on the context: a step of the scheduler
  thread, \<^verbatim>\<open>task_queue.put(task)\<close> of a submitter, and the two statements of
  \<^verbatim>\<open>Pool.stop\<close>.
\<close>

datatype 'p move = Tick | Put "'p task" | Clear_alive | Put_sentinel

text \<open>
  \<^verbatim>\<open>Pool.stop\<close>: \<^verbatim>\<open>super(Pool, self).stop()\<close> and then \<^verbatim>\<open>task_queue.put(None)\<close>.

  Modelled from the spec: \<^verbatim>\<open>BasePool.stop\<close> clears the flag \<^verbatim>\<open>context.alive\<close>.
\<close>

definition pool_stop :: "'p move list" where
  "pool_stop = [Clear_alive, Put_sentinel]"

text \<open>
  One step. The scheduler thread at the loop test reads the flag and goes on to
  \<^verbatim>\<open>get\<close>, or leaves the loop; in \<^verbatim>\<open>get\<close> it waits while the queue is empty and
  takes the oldest item otherwise.
\<close>

fun do_move :: "'p move \<Rightarrow> 'p scheduler \<Rightarrow> 'p scheduler" where
  "do_move (Put task) s = s\<lparr>task_queue := task_queue s @ [Some task]\<rparr>"
| "do_move Clear_alive s = s\<lparr>alive := False\<rparr>"
| "do_move Put_sentinel s = s\<lparr>task_queue := task_queue s @ [None]\<rparr>"
| "do_move Tick s =
     (case position s of
        At_test \<Rightarrow>
          if alive s then s\<lparr>position := At_get\<rparr>
          else s\<lparr>position := At_end, readings := readings s @ [(False, None)]\<rparr>
      | At_get \<Rightarrow>
          (case task_queue s of
             [] \<Rightarrow> s
           | item # queue \<Rightarrow>
               s\<lparr>task_queue := queue, position := At_test,
                 readings := readings s @ [(True, item)]\<rparr>)
      | At_end \<Rightarrow> s)"

text \<open>A running pool with the tasks submitted so far in its queue.\<close>

definition scheduler_init :: "'p task list \<Rightarrow> 'p scheduler" where
  "scheduler_init submitted =
     \<lparr>alive = True, task_queue = map Some submitted, position = At_test, readings = []\<rparr>"

text \<open>
  In a sequence of steps every \<^verbatim>\<open>put(None)\<close> comes after a clearing of the flag
  (\<open>cleared\<close> says that the flag is clear at the start).
\<close>

fun stop_order :: "bool \<Rightarrow> 'p move list \<Rightarrow> bool" where
  "stop_order cleared [] = True"
| "stop_order cleared (Clear_alive # ms) = stop_order True ms"
| "stop_order cleared (Put_sentinel # ms) = (cleared \<and> stop_order cleared ms)"
| "stop_order cleared (Tick # ms) = stop_order cleared ms"
| "stop_order cleared (Put task # ms) = stop_order cleared ms"

text \<open>
  The invariant of the scheduler thread under such a sequence: once the sentinel is in
  the queue or has been read, the flag is clear; the thread reads no item after a
  sentinel, and nothing after a test that found the flag false.
\<close>

definition scheduler_ok :: "'p scheduler \<Rightarrow> bool" where
  "scheduler_ok s =
     ((None \<in> set (task_queue s) \<or> (True, None) \<in> set (readings s) \<longrightarrow> \<not> alive s)
      \<and> (case position s of
            At_test \<Rightarrow> list_all fst (readings s) \<and> (True, None) \<notin> set (butlast (readings s))
          | At_get \<Rightarrow> list_all fst (readings s) \<and> (True, None) \<notin> set (readings s)
          | At_end \<Rightarrow>
              (\<exists>pre. readings s = pre @ [(False, None)] \<and> list_all fst pre
                 \<and> (True, None) \<notin> set (butlast pre))))"

section \<open>The worker process\<close>

text \<open>
  What a channel operation of the worker can raise: \<^verbatim>\<open>EOFError\<close>, or an
  \<^verbatim>\<open>EnvironmentError\<close> with its \<^verbatim>\<open>errno\<close> (which may be \<^verbatim>\<open>None\<close>).
\<close>

datatype channel_error = EOFError | EnvironmentError "int option"

text \<open>
  A worker sees the channel through \<^verbatim>\<open>poll\<close>, \<^verbatim>\<open>recv\<close> and \<^verbatim>\<open>send\<close>. One pass through
  the loop of \<^verbatim>\<open>fetch_task\<close> makes one of these observations:
  \<^item> \<open>Idle\<close>: \<^verbatim>\<open>channel.poll()\<close> returns false;
  \<^item> \<open>Poll_failed e\<close>: \<^verbatim>\<open>channel.poll()\<close> raises \<open>e\<close>;
  \<^item> \<open>Lost\<close>: \<^verbatim>\<open>channel.poll()\<close> is true, but under the lock \<^verbatim>\<open>channel.poll(0)\<close> is
    false, as another worker has taken the message;
  \<^item> \<open>Transaction_failed e\<close>: under the lock \<^verbatim>\<open>channel.poll(0)\<close> or \<^verbatim>\<open>channel.recv()\<close>
    raises \<open>e\<close>, and nothing is received;
  \<^item> \<open>Ack_failed task_id payload e\<close>: \<^verbatim>\<open>channel.recv()\<close> returns the message
    \<^verbatim>\<open>NewTask(task_id, payload)\<close>, and the \<^verbatim>\<open>channel.send\<close> of the acknowledgement
    raises \<open>e\<close>;
  \<^item> \<open>Claimed task_id payload sent\<close>: \<^verbatim>\<open>channel.recv()\<close> returns the message
    \<^verbatim>\<open>NewTask(task_id, payload)\<close> and the acknowledgement is sent; \<open>sent\<close> tells how the
    later \<^verbatim>\<open>send_results\<close> for this task ends: \<open>None\<close> when it returns, \<open>Some e\<close> when it
    raises \<open>e\<close>.
  A run of the worker is driven by the list of its observations; when the list is used
  up the worker waits in \<^verbatim>\<open>poll\<close>.
\<close>

datatype 'm observation =
    Idle
  | Poll_failed channel_error
  | Lost
  | Transaction_failed channel_error
  | Ack_failed nat 'm channel_error
  | Claimed nat 'm "channel_error option"

text \<open>
  What the worker does, in order: the trace of one worker process. \<open>Recv m\<close> is a
  \<^verbatim>\<open>channel.recv()\<close> that returns \<open>m\<close>, \<open>Send m\<close> a call \<^verbatim>\<open>channel.send(m)\<close>. The process
  ends with \<open>Os_exit n\<close>, the call \<^verbatim>\<open>os._exit(n)\<close> (the argument, not the status the
  parent sees), with \<open>Uncaught\<close>, an exception that nothing catches, or with \<open>Return\<close>,
  the return from \<^verbatim>\<open>worker_process\<close>.
\<close>

datatype ('m, 'r) action =
    Acquire
  | Release
  | Recv "('m, 'r) message"
  | Send "('m, 'r) message"
  | Execute 'm
  | Os_exit int
  | Uncaught
  | Return

text \<open>
  The handler of \<^verbatim>\<open>worker_process\<close> for \<^verbatim>\<open>EOFError\<close> and \<^verbatim>\<open>EnvironmentError\<close> calls
  \<^verbatim>\<open>os._exit(error.errno)\<close>. An \<^verbatim>\<open>EOFError\<close> has no attribute \<^verbatim>\<open>errno\<close>, and
  \<^verbatim>\<open>os._exit(None)\<close> is a type error: in both cases the handler itself raises.
\<close>

fun channel_failure :: "channel_error \<Rightarrow> ('m, 'r) action" where
  "channel_failure EOFError = Uncaught"
| "channel_failure (EnvironmentError None) = Uncaught"
| "channel_failure (EnvironmentError (Some errno)) = Os_exit errno"

text \<open>
  \<^verbatim>\<open>task_transaction\<close> takes the lock, and either receives the task and sends the
  acknowledgement or raises \<^verbatim>\<open>RuntimeError\<close>; the \<^verbatim>\<open>with\<close> block releases the lock in every
  case. \<^verbatim>\<open>fetch_task\<close> repeats it until a task is claimed; it returns \<^verbatim>\<open>None\<close> when
  \<^verbatim>\<open>poll\<close> is false, and lets any other exception through.
\<close>

datatype 'm fetched = Fetched nat 'm "channel_error option" | Nothing | Raised channel_error | Waiting

fun fetch_task ::
  "nat \<Rightarrow> 'm observation list
     \<Rightarrow> 'm fetched \<times> ('m, 'r) action list \<times> 'm observation list" where
  "fetch_task pid [] = (Waiting, [], [])"
| "fetch_task pid (Idle # obs) = (Nothing, [], obs)"
| "fetch_task pid (Poll_failed e # obs) = (Raised e, [], obs)"
| "fetch_task pid (Lost # obs) =
     (case fetch_task pid obs of
        (result, actions, rest) \<Rightarrow> (result, [Acquire, Release] @ actions, rest))"
| "fetch_task pid (Transaction_failed e # obs) = (Raised e, [Acquire, Release], obs)"
| "fetch_task pid (Ack_failed task_id payload e # obs) =
     (Raised e,
      [Acquire, Recv (NewTask task_id payload), Send (Acknowledgement pid task_id), Release],
      obs)"
| "fetch_task pid (Claimed task_id payload sent # obs) =
     (Fetched task_id payload sent,
      [Acquire, Recv (NewTask task_id payload), Send (Acknowledgement pid task_id), Release],
      obs)"

text \<open>
  The parameters of a worker. For the initializer and the deinitializer \<open>None\<close> says
  that none is configured, and \<open>Some ok\<close> that \<^verbatim>\<open>run_initializer\<close> returns \<open>ok\<close>.
\<close>

record worker_parameters =
  initializer :: "bool option"
  deinitializer :: "bool option"
  task_limit :: nat

text \<open>
  The loop of \<^verbatim>\<open>worker_process\<close> over \<^verbatim>\<open>worker_get_next_task\<close>, with the counter \<open>n\<close> of the
  generator: each task fetched is executed and its results are sent. The loop ends when
  the task limit is reached (the deinitializer runs, and the worker returns, or calls
  \<^verbatim>\<open>os._exit(1)\<close> if the deinitializer fails), when a channel operation raises, or with
  the \<^verbatim>\<open>AttributeError\<close> of \<^verbatim>\<open>task.payload\<close> on \<^verbatim>\<open>None\<close>, which nothing catches.

  Modelled from the spec: \<open>execute\<close> stands for \<^verbatim>\<open>execute\<close> of \<^verbatim>\<open>pebble.utils\<close>, which runs
  a payload and returns its result or the error it raises; it is \<open>None\<close> for a payload
  that does not return, and the trace of the worker ends there. \<^verbatim>\<open>send_results\<close> of
  \<^verbatim>\<open>pebble.process.utils\<close> sends its message on the channel.
\<close>

function worker_loop ::
  "('m \<Rightarrow> 'r option) \<Rightarrow> nat \<Rightarrow> worker_parameters \<Rightarrow> nat \<Rightarrow> 'm observation list
     \<Rightarrow> ('m, 'r) action list" where
  "worker_loop execute pid params n obs =
     (if task_limit params = 0 \<or> n < task_limit params then
        (case fetch_task pid obs of
           (Fetched task_id payload sent, actions, rest) \<Rightarrow>
             (case execute payload of
                None \<Rightarrow> actions @ [Execute payload]
              | Some results \<Rightarrow>
                  (case sent of
                     Some e \<Rightarrow>
                       actions @ [Execute payload, Send (Results task_id results),
                                  channel_failure e]
                   | None \<Rightarrow>
                       actions @ [Execute payload, Send (Results task_id results)]
                         @ worker_loop execute pid params (Suc n) rest))
         | (Nothing, actions, rest) \<Rightarrow> actions @ [Uncaught]
         | (Raised e, actions, rest) \<Rightarrow> actions @ [channel_failure e]
         | (Waiting, actions, rest) \<Rightarrow> actions)
      else if deinitializer params = Some False then [Os_exit 1]
      else [Return])"
  by pat_completeness auto
termination
proof (relation "measure (\<lambda>(execute, pid, params, n, obs). length obs)")
  show "wf (measure (\<lambda>(execute :: 'm \<Rightarrow> 'r option, pid :: nat, params :: worker_parameters, n :: nat,
                        obs :: 'm observation list). length obs))"
    by simp
next
  fix execute :: "'m \<Rightarrow> 'r option" and pid n :: nat and params :: worker_parameters
    and obs rest :: "'m observation list"
    and result :: "'m fetched" and task_id :: nat and payload :: 'm
    and sent :: "channel_error option"
    and x2 :: "('m, 'r) action list \<times> 'm observation list" and actions :: "('m, 'r) action list"
  assume f: "(result, x2) = fetch_task pid obs" "result = Fetched task_id payload sent"
    "(actions, rest) = x2"
  have "(\<exists>i p s. fst (fetch_task pid os) = Fetched i p s) \<longrightarrow>
        length (snd (snd (fetch_task pid os :: 'm fetched \<times> ('m, 'r) action list \<times> _))) < length os"
    for os :: "'m observation list"
  proof (induction os)
    case Nil
    then show ?case by simp
  next
    case (Cons ob os)
    then show ?case by (cases ob) (auto split: prod.splits)
  qed
  from this[of obs] f
  show "((execute, pid, params, Suc n, rest), (execute, pid, params, n, obs))
        \<in> measure (\<lambda>(execute, pid, params, n, obs). length obs)"
    by (metis (no_types, lifting) case_prod_conv fst_conv in_measure snd_conv)
qed

declare worker_loop.simps [simp del]

text \<open>
  \<^verbatim>\<open>worker_process\<close>: a failing initializer ends the process with \<^verbatim>\<open>os._exit(1)\<close> before
  it touches the channel.
\<close>

definition worker_process ::
  "('m \<Rightarrow> 'r option) \<Rightarrow> nat \<Rightarrow> worker_parameters \<Rightarrow> 'm observation list \<Rightarrow> ('m, 'r) action list" where
  "worker_process execute pid params obs =
     (if initializer params = Some False then [Os_exit 1]
      else worker_loop execute pid params 0 obs)"

text \<open>The messages a worker sends, in order.\<close>

fun sends :: "('m, 'r) action list \<Rightarrow> ('m, 'r) message list" where
  "sends [] = []"
| "sends (Send m # as) = m # sends as"
| "sends (_ # as) = sends as"

section \<open>Properties of scheduling and acknowledgement\<close>

text \<open>
  C1. \<^verbatim>\<open>PoolManager.schedule\<close> registers the task and then makes
  \<^verbatim>\<open>WorkerManager.dispatch\<close> send one \<^verbatim>\<open>NewTask\<close> message on the pool channel, carrying
  the task's number and what the handle holds in \<^verbatim>\<open>_metadata\<close>: for every task that
  carries a payload, the payload.
\<close>

theorem schedule_sends_NewTask:
  "pool_channel (schedule task s) = pool_channel s @ [NewTask (number task) (metadata task)]
   \<and> (\<forall>p. task_payload task = Some p \<longrightarrow>
          pool_channel (schedule task s) = pool_channel s @ [NewTask (number task) (Payload p)])
   \<and> map_of (tasks (schedule task s)) (number task) = Some task"
  by (auto simp: schedule_def dispatch_def register_def task_payload_def update_conv'
           split: metadata.splits)

theorem schedule_sends_NewTask_witness:
  "task_payload \<lparr>number = 3, timeout = None, cancelled = False,
            metadata = Payload ''job'', timestamp = 0\<rparr> = Some ''job''
   \<and> pool_channel (schedule \<lparr>number = 3, timeout = None, cancelled = False,
            metadata = Payload ''job'', timestamp = 0\<rparr>
          (pool_manager_init 2 :: (string, nat) pool_manager))
       = [NewTask 3 (Payload ''job'')]"
  using schedule_sends_NewTask
    [of "\<lparr>number = 3, timeout = None, cancelled = False,
          metadata = Payload ''job'', timestamp = 0\<rparr>"
        "pool_manager_init 2 :: (string, nat) pool_manager"]
  by (simp add: task_payload_def pool_manager_init_def)

text \<open>
  C2, as the spec states it: \<^verbatim>\<open>task_start\<close> on an identifier that is not in the table
  drops the call without an error. It does not: the unguarded lookup raises
  \<^verbatim>\<open>KeyError\<close>, which \<^verbatim>\<open>process_message\<close> passes on.
\<close>

theorem task_start_absent_counterexample:
  "map_of (tasks (pool_manager_init 1 :: (string, nat) pool_manager)) 5 = None
   \<and> task_start 5 7 100 (pool_manager_init 1 :: (string, nat) pool_manager) = Inl KeyError
   \<and> process_message (Acknowledgement 7 5) 100 (pool_manager_init 1 :: (string, nat) pool_manager)
        = Inl KeyError"
  by (simp add: task_start_def process_message_def pool_manager_init_def)

text \<open>
  C2, amended: \<^verbatim>\<open>task_start\<close> raises \<^verbatim>\<open>KeyError\<close> when the identifier is absent, also
  through \<^verbatim>\<open>process_message\<close>; when it is present the task's \<^verbatim>\<open>_metadata\<close> becomes
  the worker's pid and its \<^verbatim>\<open>_timestamp\<close> the current time, and nothing else changes.
\<close>

theorem task_start_raises_or_stamps:
  "(map_of (tasks s) task_id = None \<longrightarrow>
      task_start task_id worker_id now s = Inl KeyError
      \<and> process_message (Acknowledgement worker_id task_id) now s = Inl KeyError)
   \<and> (\<forall>task. map_of (tasks s) task_id = Some task \<longrightarrow>
        (\<exists>s'. task_start task_id worker_id now s = Inr s'
           \<and> process_message (Acknowledgement worker_id task_id) now s = Inr s'
           \<and> map_of (tasks s') task_id
                = Some (task\<lparr>metadata := WorkerId worker_id, timestamp := now\<rparr>)
           \<and> (\<forall>k. k \<noteq> task_id \<longrightarrow> map_of (tasks s') k = map_of (tasks s) k)
           \<and> map fst (tasks s') = map fst (tasks s)
           \<and> s' = s\<lparr>tasks := tasks s'\<rparr>))"
proof -
  have "task_id \<in> fst ` set (tasks s)" if "map_of (tasks s) task_id = Some task" for task
    using that by (metis map_of_eq_None_iff option.distinct(1))
  then show ?thesis
    by (auto simp: task_start_def process_message_def update_conv' update_keys)
qed

theorem task_start_raises_or_stamps_witness:
  "map_of (tasks (pool_manager_init 1 :: (string, nat) pool_manager)) 5 = None
   \<and> task_start 5 7 100 (pool_manager_init 1 :: (string, nat) pool_manager) = Inl KeyError
   \<and> map_of (tasks (schedule \<lparr>number = 5, timeout = None, cancelled = False,
            metadata = Payload ''job'', timestamp = 0\<rparr>
          (pool_manager_init 1 :: (string, nat) pool_manager))) 5 = Some \<lparr>number = 5, timeout = None, cancelled = False,
            metadata = Payload ''job'', timestamp = 0\<rparr>
   \<and> task_start 5 7 100 (schedule \<lparr>number = 5, timeout = None, cancelled = False,
            metadata = Payload ''job'', timestamp = 0\<rparr>
          (pool_manager_init 1 :: (string, nat) pool_manager))
       = Inr ((pool_manager_init 1)
           \<lparr>tasks := [(5, \<lparr>number = 5, timeout = None, cancelled = False,
                           metadata = WorkerId 7, timestamp = 100\<rparr>)],
            pool_channel := [NewTask 5 (Payload ''job'')]\<rparr>)"
  using task_start_raises_or_stamps
    [of "pool_manager_init 1 :: (string, nat) pool_manager" 5 7 100]
   task_start_raises_or_stamps
    [of "schedule \<lparr>number = 5, timeout = None, cancelled = False,
            metadata = Payload ''job'', timestamp = 0\<rparr>
          (pool_manager_init 1 :: (string, nat) pool_manager)" 5 7 100]
  by (simp add: pool_manager_init_def schedule_def register_def dispatch_def task_start_def)

section \<open>The task table\<close>

lemma map_of_table:
  "distinct (map fst ts) \<Longrightarrow> (k, t) \<in> set ts \<Longrightarrow> map_of ts k = Some t"
  by simp

lemma table_ok_delete: "table_ok ts \<Longrightarrow> table_ok (AList.delete k ts)"
  by (auto simp: table_ok_def AList.delete_eq distinct_map_filter)

lemma set_update_cases:
  "(a, b) \<in> set (AList.update k v ts) \<Longrightarrow> (a, b) = (k, v) \<or> (a, b) \<in> set ts"
  by (induction ts) (auto split: if_splits)

lemma table_ok_update: "table_ok ts \<Longrightarrow> number t = k \<Longrightarrow> table_ok (AList.update k t ts)"
  unfolding table_ok_def
  by (auto simp: distinct_update dest!: set_update_cases)

lemma table_ok_lookup: "table_ok ts \<Longrightarrow> map_of ts k = Some t \<Longrightarrow> number t = k"
  by (auto simp: table_ok_def dest!: map_of_SomeD)

lemma table_ok_filter: "table_ok ts \<Longrightarrow> table_ok (filter P ts)"
  by (auto simp: table_ok_def distinct_map_filter)

lemma table_ok_values_distinct: "table_ok ts \<Longrightarrow> distinct (map snd ts)"
proof -
  assume ok: "table_ok ts"
  then have "map fst ts = map (number \<circ> snd) ts" by (auto simp: table_ok_def)
  with ok have "distinct (map number (map snd ts))" by (simp add: table_ok_def)
  then show ?thesis by (metis distinct_map)
qed

lemma table_ok_number_eq:
  "table_ok ts \<Longrightarrow> t \<in> snd ` set ts \<Longrightarrow> t' \<in> snd ` set ts \<Longrightarrow>
   number t = number t' \<Longrightarrow> t = t'"
proof -
  assume ok: "table_ok ts" and t: "t \<in> snd ` set ts" and t': "t' \<in> snd ` set ts"
    and eq: "number t = number t'"
  from ok t have a: "(number t, t) \<in> set ts" by (force simp: table_ok_def)
  from ok t' have b: "(number t', t') \<in> set ts" by (force simp: table_ok_def)
  from ok have "distinct (map fst ts)" by (simp add: table_ok_def)
  with a b eq show ?thesis by (metis map_of_table option.inject)
qed

lemma task_done_absent:
  "task_id \<notin> fst ` set (tasks s) \<Longrightarrow> task_done task_id r s = s"
  by (simp add: task_done_def map_of_eq_None_iff[THEN iffD2])

lemma task_done_present:
  "distinct (map fst (tasks s)) \<Longrightarrow> (task_id, t) \<in> set (tasks s) \<Longrightarrow>
   task_done task_id r s =
     s\<lparr>tasks := filter (\<lambda>(k, _). task_id \<noteq> k) (tasks s),
       set_results := set_results s @ [(t, r)],
       queue_done := Suc (queue_done s)\<rparr>"
  by (auto simp: task_done_def AList.delete_eq intro!: filter_cong)

lemma keys_task_done: "fst ` set (tasks (task_done task_id r s)) \<subseteq> fst ` set (tasks s)"
  by (auto simp: task_done_def AList.delete_eq split: option.splits)

text \<open>
  C6. \<^verbatim>\<open>inspect_tasks\<close> returns, in table order, the tasks that are started with a
  positive timeout exceeded by the time since \<^verbatim>\<open>_timestamp\<close>, and the tasks that are
  started and cancelled; a cancelled task that is not started is in neither list.
\<close>

theorem inspect_tasks_exact:
  "inspect_tasks now s =
     (filter (spec_timed_out now) (map snd (tasks s)),
      filter (\<lambda>t. started t \<and> cancelled t) (map snd (tasks s)))
   \<and> (\<forall>t. cancelled t \<and> \<not> started t \<longrightarrow>
          t \<notin> set (fst (inspect_tasks now s)) \<and> t \<notin> set (snd (inspect_tasks now s)))"
proof -
  have "has_timeout now t = spec_timed_out now t" for t :: "'a task"
    by (cases "timeout t") (auto simp: has_timeout_def spec_timed_out_def)
  then have "has_timeout now = (spec_timed_out now :: 'a task \<Rightarrow> bool)"
    by (simp add: fun_eq_iff)
  then show ?thesis
    by (auto simp: inspect_tasks_def Let_def spec_timed_out_def)
qed

theorem inspect_tasks_exact_witness:
  "cancelled \<lparr>number = 3, timeout = Some 5, cancelled = True,
              metadata = Payload ''c'', timestamp = 0\<rparr>
   \<and> \<not> started \<lparr>number = 3, timeout = Some 5, cancelled = True,
                 metadata = Payload ''c'', timestamp = 0\<rparr>
   \<and> inspect_tasks 100
        ((pool_manager_init 2 :: (string, nat) pool_manager)
           \<lparr>tasks := [(1, \<lparr>number = 1, timeout = Some 5, cancelled = False,
                            metadata = WorkerId 7, timestamp = 10\<rparr>),
                       (2, \<lparr>number = 2, timeout = None, cancelled = True,
                            metadata = WorkerId 8, timestamp = 20\<rparr>),
                       (3, \<lparr>number = 3, timeout = Some 5, cancelled = True,
                            metadata = Payload ''c'', timestamp = 0\<rparr>),
                       (4, \<lparr>number = 4, timeout = Some 90, cancelled = False,
                            metadata = WorkerId 9, timestamp = 10\<rparr>)]\<rparr>)
      = ([\<lparr>number = 1, timeout = Some 5, cancelled = False,
           metadata = WorkerId 7, timestamp = 10\<rparr>],
         [\<lparr>number = 2, timeout = None, cancelled = True,
           metadata = WorkerId 8, timestamp = 20\<rparr>])"
  using inspect_tasks_exact
    [of 100 "(pool_manager_init 2 :: (string, nat) pool_manager)
           \<lparr>tasks := [(1, \<lparr>number = 1, timeout = Some 5, cancelled = False,
                            metadata = WorkerId 7, timestamp = 10\<rparr>),
                       (2, \<lparr>number = 2, timeout = None, cancelled = True,
                            metadata = WorkerId 8, timestamp = 20\<rparr>),
                       (3, \<lparr>number = 3, timeout = Some 5, cancelled = True,
                            metadata = Payload ''c'', timestamp = 0\<rparr>),
                       (4, \<lparr>number = 4, timeout = Some 90, cancelled = False,
                            metadata = WorkerId 9, timestamp = 10\<rparr>)]\<rparr>"]
  by (simp add: spec_timed_out_def started_def pool_manager_init_def)

section \<open>Completion through the task manager\<close>

text \<open>Resolving a list of tasks of the table, one after the other, with the same outcome.\<close>

lemma fold_task_done:
  "table_ok (tasks s) \<Longrightarrow> distinct ts \<Longrightarrow> set ts \<subseteq> snd ` set (tasks s) \<Longrightarrow>
   fold (\<lambda>t. task_done (number t) r) ts s =
     s\<lparr>tasks := filter (\<lambda>(k, t). t \<notin> set ts) (tasks s),
       set_results := set_results s @ map (\<lambda>t. (t, r)) ts,
       queue_done := queue_done s + length ts\<rparr>"
proof (induction ts arbitrary: s)
  case Nil
  then show ?case by simp
next
  case (Cons t ts)
  from Cons.prems obtain k where kt: "(k, t) \<in> set (tasks s)" by auto
  with Cons.prems have k: "k = number t" by (auto simp: table_ok_def)
  have d: "distinct (map fst (tasks s))" using Cons.prems by (simp add: table_ok_def)
  let ?s1 = "task_done (number t) r s"
  have s1: "?s1 = s\<lparr>tasks := filter (\<lambda>(k, _). number t \<noteq> k) (tasks s),
       set_results := set_results s @ [(t, r)],
       queue_done := Suc (queue_done s)\<rparr>"
    using task_done_present[OF d] kt k by blast
  have same: "filter (\<lambda>(k, _). number t \<noteq> k) (tasks s) = filter (\<lambda>(k, t'). t' \<noteq> t) (tasks s)"
  proof (rule filter_cong[OF refl])
    fix x assume x: "x \<in> set (tasks s)"
    obtain k' t' where x': "x = (k', t')" by (cases x)
    have "k' = number t \<longleftrightarrow> t' = t"
    proof
      assume "k' = number t"
      with x x' kt k d show "t' = t" by (metis map_of_table option.inject)
    next
      assume "t' = t"
      with x x' Cons.prems(1) show "k' = number t" by (auto simp: table_ok_def)
    qed
    then show "(case x of (k, _) \<Rightarrow> number t \<noteq> k) = (case x of (k, t') \<Rightarrow> t' \<noteq> t)"
      by (auto simp: x')
  qed
  have s1': "?s1 = s\<lparr>tasks := filter (\<lambda>(k, t'). t' \<noteq> t) (tasks s),
       set_results := set_results s @ [(t, r)],
       queue_done := Suc (queue_done s)\<rparr>"
    using s1 same by simp
  have ok1: "table_ok (tasks ?s1)" using Cons.prems(1) by (simp add: s1 table_ok_filter)
  have sub1: "set ts \<subseteq> snd ` set (tasks ?s1)"
    using Cons.prems(2,3) by (force simp: s1 same)
  have "fold (\<lambda>t. task_done (number t) r) ts ?s1 =
     ?s1\<lparr>tasks := filter (\<lambda>(k, t). t \<notin> set ts) (tasks ?s1),
       set_results := set_results ?s1 @ map (\<lambda>t. (t, r)) ts,
       queue_done := queue_done ?s1 + length ts\<rparr>"
    using Cons.IH[OF ok1 _ sub1] Cons.prems(2) by simp
  then show ?case
    by (simp add: s1') (simp add: split_def conj_commute)
qed

lemma fold_task_done_skip:
  "fst ` set (tasks s) \<inter> A = {} \<Longrightarrow>
   fold (\<lambda>t. task_done (number t) r) ts s =
   fold (\<lambda>t. task_done (number t) r) (filter (\<lambda>t. number t \<notin> A) ts) s"
proof (induction ts arbitrary: s)
  case Nil
  then show ?case by simp
next
  case (Cons t ts)
  show ?case
  proof (cases "number t \<in> A")
    case True
    with Cons.prems have "number t \<notin> fst ` set (tasks s)" by auto
    then have "task_done (number t) r s = s" by (rule task_done_absent)
    with True Cons show ?thesis by simp
  next
    case False
    have "fst ` set (tasks (task_done (number t) r s)) \<inter> A = {}"
      using Cons.prems keys_task_done[of "number t" r s] by blast
    from Cons.IH[OF this] False show ?thesis by simp
  qed
qed

text \<open>The two loops of \<^verbatim>\<open>update_tasks\<close> over lists of tasks taken from the table.\<close>

lemma fold_task_done_twice:
  assumes ok: "table_ok (tasks s)"
    and to: "distinct to" "set to \<subseteq> snd ` set (tasks s)"
    and ca: "distinct ca" "set ca \<subseteq> snd ` set (tasks s)"
  shows "fold (\<lambda>t. task_done (number t) r2) ca (fold (\<lambda>t. task_done (number t) r1) to s) =
     s\<lparr>tasks := filter (\<lambda>(k, t). t \<notin> set to \<and> t \<notin> set ca) (tasks s),
       set_results := set_results s @ map (\<lambda>t. (t, r1)) to
                        @ map (\<lambda>t. (t, r2)) (filter (\<lambda>t. t \<notin> set to) ca),
       queue_done := queue_done s + length to + length (filter (\<lambda>t. t \<notin> set to) ca)\<rparr>"
proof -
  let ?s1 = "fold (\<lambda>t. task_done (number t) r1) to s"
  let ?ca = "filter (\<lambda>t. t \<notin> set to) ca"
  have s1: "?s1 = s\<lparr>tasks := filter (\<lambda>(k, t). t \<notin> set to) (tasks s),
       set_results := set_results s @ map (\<lambda>t. (t, r1)) to,
       queue_done := queue_done s + length to\<rparr>"
    by (rule fold_task_done[OF ok to])
  have ok1: "table_ok (tasks ?s1)" using ok by (simp add: s1 table_ok_filter)
  have disj: "fst ` set (tasks ?s1) \<inter> number ` set to = {}"
  proof -
    have False if "(number t, t') \<in> set (tasks s)" "t' \<notin> set to" "t \<in> set to"
      for t t'
    proof -
      from that(1) ok have "number t' = number t" by (auto simp: table_ok_def)
      moreover from that(1) have "t' \<in> snd ` set (tasks s)" by force
      moreover from that(3) to(2) have "t \<in> snd ` set (tasks s)" by auto
      ultimately have "t = t'" using table_ok_number_eq[OF ok] by metis
      with that show False by simp
    qed
    then show ?thesis by (auto simp: s1)
  qed
  have ca': "filter (\<lambda>t. number t \<notin> number ` set to) ca = ?ca"
  proof (rule filter_cong[OF refl])
    fix t assume "t \<in> set ca"
    with ca(2) have t: "t \<in> snd ` set (tasks s)" by auto
    have "t \<in> set to" if "t' \<in> set to" "number t = number t'" for t'
      using table_ok_number_eq[OF ok t _ that(2)] that(1) to(2) by auto
    then show "(number t \<notin> number ` set to) = (t \<notin> set to)" by auto
  qed
  have sub: "set ?ca \<subseteq> snd ` set (tasks ?s1)"
    using ca(2) by (force simp: s1)
  have "fold (\<lambda>t. task_done (number t) r2) ca ?s1 = fold (\<lambda>t. task_done (number t) r2) ?ca ?s1"
    using fold_task_done_skip[OF disj, of r2 ca] ca' by simp
  also have "\<dots> = ?s1\<lparr>tasks := filter (\<lambda>(k, t). t \<notin> set ?ca) (tasks ?s1),
       set_results := set_results ?s1 @ map (\<lambda>t. (t, r2)) ?ca,
       queue_done := queue_done ?s1 + length ?ca\<rparr>"
    using fold_task_done[OF ok1 _ sub] ca(1) by simp
  also have "\<dots> = s\<lparr>tasks := filter (\<lambda>(k, t). t \<notin> set to \<and> t \<notin> set ca) (tasks s),
       set_results := set_results s @ map (\<lambda>t. (t, r1)) to @ map (\<lambda>t. (t, r2)) ?ca,
       queue_done := queue_done s + length to + length ?ca\<rparr>"
    by (simp add: s1 split_def cong: conj_cong)
  finally show ?thesis .
qed

text \<open>
  No operation but \<^verbatim>\<open>register\<close> changes the number of calls of \<^verbatim>\<open>set_results\<close> made
  or owed for a task number.
\<close>

lemma task_done_pending:
  assumes ok: "table_ok (tasks s)"
  shows "table_ok (tasks (task_done task_id r s)) \<and> pending n (task_done task_id r s) = pending n s"
proof (cases "map_of (tasks s) task_id")
  case None
  then show ?thesis using ok by (simp add: task_done_def)
next
  case (Some t)
  then have num: "number t = task_id" using ok by (rule table_ok_lookup[rotated])
  from Some have isin: "task_id \<in> fst ` set (tasks s)"
    by (metis map_of_eq_None_iff option.distinct(1))
  have keys: "fst ` set (AList.delete task_id (tasks s)) = fst ` set (tasks s) - {task_id}"
    by (auto simp: AList.delete_eq)
  show ?thesis
    using Some ok num isin
    by (auto simp: task_done_def pending_def resolved_def keys table_ok_delete)
qed

lemma fold_task_done_pending:
  "table_ok (tasks s) \<Longrightarrow>
   table_ok (tasks (fold (\<lambda>t. task_done (f t) r) ts s))
   \<and> pending n (fold (\<lambda>t. task_done (f t) r) ts s) = pending n s"
  by (induction ts arbitrary: s) (simp_all add: task_done_pending)

lemma task_start_pending:
  assumes ok: "table_ok (tasks s)" and st: "task_start task_id w now s = Inr s'"
  shows "table_ok (tasks s') \<and> pending n s' = pending n s"
proof -
  from st obtain t where t: "map_of (tasks s) task_id = Some t"
    and s': "s' = s\<lparr>tasks := AList.update task_id (t\<lparr>metadata := WorkerId w, timestamp := now\<rparr>) (tasks s)\<rparr>"
    by (auto simp: task_start_def split: option.splits)
  from t ok have num: "number t = task_id" by (rule table_ok_lookup[rotated])
  from t have isin: "task_id \<in> fst ` set (tasks s)"
    by (metis map_of_eq_None_iff option.distinct(1))
  have "table_ok (tasks s')" using ok num by (simp add: s' table_ok_update)
  moreover have "pending n s' = pending n s"
    using isin by (auto simp: s' pending_def resolved_def dom_update)
  ultimately show ?thesis by simp
qed

lemma schedule_pending:
  assumes ok: "table_ok (tasks s)"
  shows "table_ok (tasks (schedule t s))
     \<and> pending n (schedule t s) \<le> pending n s + (if number t = n then 1 else 0)"
  using ok
  by (auto simp: schedule_def dispatch_def register_def table_ok_update pending_def resolved_def
      dom_update)

lemma stop_each_tasks:
  "stop_each ids s = Inr s' \<Longrightarrow> tasks s' = tasks s \<and> set_results s' = set_results s"
proof (induction ids arbitrary: s)
  case Nil
  then show ?case by simp
next
  case (Cons i ids)
  then obtain s1 where s1: "stop_worker i s = Inr s1" and rest: "stop_each ids s1 = Inr s'"
    by (auto split: sum.splits)
  from s1 have "tasks s1 = tasks s \<and> set_results s1 = set_results s"
    by (auto simp: stop_worker_def split: metadata.splits option.splits)
  with Cons.IH[OF rest] show ?case by simp
qed

lemma update_tasks_pending:
  assumes ok: "table_ok (tasks s)" and up: "update_tasks now s = Inr s'"
  shows "table_ok (tasks s') \<and> pending n s' = pending n s"
proof -
  obtain to ca where insp: "inspect_tasks now s = (to, ca)" by (cases "inspect_tasks now s")
  let ?s1 = "fold (\<lambda>t. task_done (number t) (TimeoutError ''Timeout'')) to s"
  let ?s2 = "fold (\<lambda>t. task_done (number t) (TaskCancelled ''Cancelled'')) ca ?s1"
  from up insp have "stop_each (map metadata (to @ ca)) ?s2 = Inr s'"
    by (simp add: update_tasks_def)
  from stop_each_tasks[OF this] have eq: "tasks s' = tasks ?s2" "set_results s' = set_results ?s2"
    by simp_all
  have a: "table_ok (tasks ?s1) \<and> pending n ?s1 = pending n s"
    by (rule fold_task_done_pending[OF ok])
  then have "table_ok (tasks ?s2) \<and> pending n ?s2 = pending n ?s1"
    using fold_task_done_pending by blast
  with a eq show ?thesis by (simp add: pending_def resolved_def)
qed

lemma create_workers_tasks:
  "tasks (((new_worker pids) ^^ k) s) = tasks s
   \<and> set_results (((new_worker pids) ^^ k) s) = set_results s"
  by (induction k) (simp_all add: new_worker_def)

lemma handle_worker_expiration_pending:
  "table_ok (tasks s) \<Longrightarrow>
   table_ok (tasks (handle_worker_expiration e s))
   \<and> pending n (handle_worker_expiration e s) = pending n s"
  by (cases e) (simp add: handle_worker_expiration_def task_done_pending split: option.splits)

lemma fold_expiration_pending:
  "table_ok (tasks s) \<Longrightarrow>
   table_ok (tasks (fold handle_worker_expiration es s))
   \<and> pending n (fold handle_worker_expiration es s) = pending n s"
  by (induction es arbitrary: s) (simp_all add: handle_worker_expiration_pending)

lemma update_workers_pending:
  assumes ok: "table_ok (tasks s)"
  shows "table_ok (tasks (update_workers pids s)) \<and> pending n (update_workers pids s) = pending n s"
proof -
  obtain es s1 where insp: "inspect_workers s = (es, s1)" by (cases "inspect_workers s")
  then have s1: "tasks s1 = tasks s" "set_results s1 = set_results s"
    by (auto simp: inspect_workers_def)
  let ?s2 = "fold handle_worker_expiration es s1"
  have "table_ok (tasks s1)" using ok s1 by simp
  from fold_expiration_pending[OF this]
  have a: "table_ok (tasks ?s2)" "pending n ?s2 = pending n s1" by simp_all
  have "pending n s1 = pending n s" using s1 by (simp add: pending_def resolved_def)
  with a show ?thesis
    using create_workers_tasks[of _ pids ?s2]
    by (simp add: update_workers_def insp create_workers_def pending_def resolved_def)
qed

lemma cancel_pending:
  assumes ok: "table_ok (tasks s)"
  shows "table_ok (tasks (cancel m s)) \<and> pending n (cancel m s) = pending n s"
proof -
  have mf: "map fst (tasks (cancel m s)) = map fst (tasks s)"
    by (simp add: cancel_def split_def comp_def)
  have "fst ` set (tasks (cancel m s)) = set (map fst (tasks (cancel m s)))" by simp
  also have "\<dots> = set (map fst (tasks s))" by (simp only: mf)
  finally have keys: "fst ` set (tasks (cancel m s)) = fst ` set (tasks s)" by simp
  have res: "set_results (cancel m s) = set_results s" by (simp add: cancel_def)
  have "table_ok (tasks (cancel m s))"
    unfolding table_ok_def
  proof
    show "distinct (map fst (tasks (cancel m s)))"
      using ok by (simp only: mf table_ok_def)
    show "\<forall>(k, t) \<in> set (tasks (cancel m s)). number t = k"
      using ok by (auto simp: table_ok_def cancel_def)
  qed
  then show ?thesis
    by (simp add: pending_def resolved_def keys res)
qed

lemma step_pending:
  assumes ok: "table_ok (tasks s)" and st: "step pids ev s = Inr s'"
  shows "table_ok (tasks s') \<and> pending n s' \<le> pending n s + scheduled n [ev]"
proof (cases ev)
  case (Schedule t)
  with st schedule_pending[OF ok, of t n] show ?thesis by auto
next
  case (Message m now)
  with st show ?thesis
    using task_start_pending[OF ok, of _ _ now s' n] task_done_pending[OF ok, of _ _ n] ok
    by (cases m) (auto simp: process_message_def)
next
  case (Update_tasks now)
  with st update_tasks_pending[OF ok, of now s' n] show ?thesis by simp
next
  case Update_workers
  with st update_workers_pending[OF ok, of pids n] show ?thesis by auto
next
  case (Cancel m)
  with st cancel_pending[OF ok, of m n] show ?thesis by auto
next
  case (Exit_worker pid code)
  with st ok show ?thesis by (auto simp: exit_worker_def pending_def resolved_def)
qed

lemma scheduled_Cons: "scheduled n (ev # evs) = scheduled n [ev] + scheduled n evs"
  by (cases ev) simp_all

lemma run_pending:
  "table_ok (tasks s) \<Longrightarrow> run pids evs s = Inr s' \<Longrightarrow>
   table_ok (tasks s') \<and> pending n s' \<le> pending n s + scheduled n evs"
proof (induction evs arbitrary: s)
  case Nil
  then show ?case by simp
next
  case (Cons ev evs)
  from Cons.prems(2) obtain s1 where s1: "step pids ev s = Inr s1" and rest: "run pids evs s1 = Inr s'"
    by (auto split: sum.splits)
  from step_pending[OF Cons.prems(1) s1, of n]
  have a: "table_ok (tasks s1)" "pending n s1 \<le> pending n s + scheduled n [ev]" by simp_all
  from Cons.IH[OF a(1) rest] a(2) show ?case
    by (simp add: scheduled_Cons[of n ev evs])
qed

text \<open>
  C4. \<^verbatim>\<open>task_done\<close> on an identifier that is not in the table changes nothing. On one
  that is, it removes the task, hands the outcome to \<^verbatim>\<open>set_results\<close> of that task and
  runs the completion callback once. Hence in every run of the pool manager (results
  messages, timeouts, cancellations, crashed workers, in any order) \<^verbatim>\<open>set_results\<close> is
  called at most once for a task number of the table, plus once for each later
  registration of that number.
\<close>

theorem task_done_at_most_once:
  "(map_of (tasks s) task_id = None \<longrightarrow> task_done task_id r s = s)
   \<and> (\<forall>task. map_of (tasks s) task_id = Some task \<longrightarrow>
         tasks (task_done task_id r s) = AList.delete task_id (tasks s)
         \<and> map_of (tasks (task_done task_id r s)) task_id = None
         \<and> set_results (task_done task_id r s) = set_results s @ [(task, r)]
         \<and> queue_done (task_done task_id r s) = Suc (queue_done s))
   \<and> (table_ok (tasks s) \<and> run pids evs s = Inr s' \<longrightarrow>
         resolved n s' \<le> resolved n s + (if n \<in> fst ` set (tasks s) then 1 else 0)
                           + scheduled n evs)"
proof -
  have "resolved n s' \<le> pending n s + scheduled n evs"
    if "table_ok (tasks s)" "run pids evs s = Inr s'"
    using run_pending[OF that, of n] by (simp add: pending_def)
  then show ?thesis
    by (auto simp: task_done_def delete_conv' pending_def)
qed

theorem task_done_at_most_once_witness:
  "map_of [(1::nat, \<lparr>number = 1, timeout = Some 5, cancelled = False,
                  metadata = WorkerId 7, timestamp = 10\<rparr>)] 2 = None
   \<and> map_of [(1::nat, \<lparr>number = 1, timeout = Some 5, cancelled = False,
                  metadata = WorkerId 7, timestamp = 10\<rparr>)] 1
       = Some \<lparr>number = 1, timeout = Some 5, cancelled = False,
                  metadata = WorkerId 7, timestamp = 10\<rparr>
   \<and> table_ok [(1::nat, \<lparr>number = 1, timeout = Some 5, cancelled = False,
                  metadata = WorkerId 7, timestamp = 10\<rparr>)]
   \<and> run (\<lambda>k. 100 + k)
         [Update_tasks 90, Message (Results 1 (Returned 42)) 95, Exit_worker 7 1,
          Update_workers, Cancel 1]
         ((pool_manager_init 1 :: (string, nat) pool_manager)
           \<lparr>tasks := [(1, \<lparr>number = 1, timeout = Some 5, cancelled = False,
                  metadata = WorkerId 7, timestamp = 10\<rparr>)],
            workers := [(7, \<lparr>is_alive = True, exitcode = None\<rparr>)]\<rparr>)
      = Inr ((pool_manager_init 1)
           \<lparr>set_results := [(\<lparr>number = 1, timeout = Some 5, cancelled = False,
                               metadata = WorkerId 7, timestamp = 10\<rparr>,
                              TimeoutError ''Timeout'')],
            queue_done := 1,
            workers := [(100, \<lparr>is_alive = True, exitcode = None\<rparr>)],
            stopped := [7],
            spawned := 1\<rparr>)
   \<and> resolved 1 ((pool_manager_init 1 :: (string, nat) pool_manager)
           \<lparr>set_results := [(\<lparr>number = 1, timeout = Some 5, cancelled = False,
                               metadata = WorkerId 7, timestamp = 10\<rparr>,
                              TimeoutError ''Timeout'')],
            queue_done := 1,
            workers := [(100, \<lparr>is_alive = True, exitcode = None\<rparr>)],
            stopped := [7],
            spawned := 1\<rparr>) = 1"
  using task_done_at_most_once
    [of "(pool_manager_init 1 :: (string, nat) pool_manager)
           \<lparr>tasks := [(1, \<lparr>number = 1, timeout = Some 5, cancelled = False,
                  metadata = WorkerId 7, timestamp = 10\<rparr>)],
            workers := [(7, \<lparr>is_alive = True, exitcode = None\<rparr>)]\<rparr>"
        2 "Returned 42" "\<lambda>k. 100 + k"
        "[Update_tasks 90, Message (Results 1 (Returned 42)) 95, Exit_worker 7 1,
          Update_workers, Cancel 1]"
        "(pool_manager_init 1)
           \<lparr>set_results := [(\<lparr>number = 1, timeout = Some 5, cancelled = False,
                               metadata = WorkerId 7, timestamp = 10\<rparr>,
                              TimeoutError ''Timeout'')],
            queue_done := 1,
            workers := [(100, \<lparr>is_alive = True, exitcode = None\<rparr>)],
            stopped := [7],
            spawned := 1\<rparr>" 1]
  by (simp add: Let_def table_ok_def resolved_def update_tasks_def inspect_tasks_def
      has_timeout_def started_def task_done_def stop_worker_def pool_manager_init_def
      process_message_def update_workers_def inspect_workers_def expired_def create_workers_def
      new_worker_def exit_worker_def cancel_def)

section \<open>Timeouts and cancellations\<close>

lemma stop_each_pids:
  "\<exists>log. stop_each (map WorkerId pids) s =
           Inr (s\<lparr>workers := filter (\<lambda>(k, _). k \<notin> set pids) (workers s),
                  stopped := stopped s @ log\<rparr>)
         \<and> set log = set pids \<inter> fst ` set (workers s)"
proof (induction pids arbitrary: s)
  case Nil
  then show ?case by simp
next
  case (Cons p pids)
  show ?case
  proof (cases "map_of (workers s) p")
    case None
    then have notin: "p \<notin> fst ` set (workers s)" by (simp add: map_of_eq_None_iff)
    then have flt: "filter (\<lambda>(k, _). k \<notin> set (p # pids)) (workers s)
        = filter (\<lambda>(k, _). k \<notin> set pids) (workers s)"
      by (force intro!: filter_cong)
    from None have "stop_worker (WorkerId p) s = Inr s" by (simp add: stop_worker_def)
    with Cons.IH[of s] notin flt show ?thesis by auto
  next
    case (Some w)
    then have isin: "p \<in> fst ` set (workers s)" by (metis map_of_eq_None_iff option.distinct(1))
    let ?s1 = "s\<lparr>workers := AList.delete p (workers s), stopped := stopped s @ [p]\<rparr>"
    from Some have st: "stop_worker (WorkerId p) s = Inr ?s1" by (simp add: stop_worker_def)
    from Cons.IH[of ?s1] obtain log where
      log: "stop_each (map WorkerId pids) ?s1 =
           Inr (?s1\<lparr>workers := filter (\<lambda>(k, _). k \<notin> set pids) (workers ?s1),
                  stopped := stopped ?s1 @ log\<rparr>)"
        "set log = set pids \<inter> fst ` set (workers ?s1)" by blast
    have flt: "filter (\<lambda>(k, _). k \<notin> set pids) (AList.delete p (workers s))
        = filter (\<lambda>(k, _). k \<notin> set (p # pids)) (workers s)"
      by (simp add: AList.delete_eq split_def) (metis)
    have keys: "fst ` set (AList.delete p (workers s)) = fst ` set (workers s) - {p}"
      by (auto simp: AList.delete_eq)
    have "stop_each (map WorkerId (p # pids)) s =
           Inr (s\<lparr>workers := filter (\<lambda>(k, _). k \<notin> set (p # pids)) (workers s),
                  stopped := stopped s @ (p # log)\<rparr>)"
      using st log(1) flt by simp
    moreover have "set (p # log) = set (p # pids) \<inter> fst ` set (workers s)"
      using log(2) keys isin by auto
    ultimately show ?thesis by blast
  qed
qed

lemma worker_ids:
  "\<forall>t \<in> set ts. task_payload t = None \<Longrightarrow> \<exists>pids. map metadata ts = map WorkerId pids"
proof (induction ts)
  case Nil
  then show ?case by simp
next
  case (Cons t ts)
  then obtain pids where "map metadata ts = map WorkerId pids" by auto
  moreover from Cons.prems obtain p where "metadata t = WorkerId p"
    by (cases "metadata t") (auto simp: task_payload_def)
  ultimately have "map metadata (t # ts) = map WorkerId (p # pids)" by simp
  then show ?case by blast
qed

lemma has_timeout_started: "has_timeout now t \<Longrightarrow> started t"
  by (simp add: has_timeout_def split: if_splits)

text \<open>What one call of \<^verbatim>\<open>update_tasks\<close> does to the state.\<close>

lemma update_tasks_effect:
  assumes ok: "table_ok (tasks s)" and cl: "claimed_ok (tasks s)"
    and insp: "inspect_tasks now s = (timed_out, cancelled_running)"
  shows "\<exists>s'. update_tasks now s = Inr s'
    \<and> set_results s' = set_results s
          @ map (\<lambda>t. (t, TimeoutError ''Timeout'')) timed_out
          @ map (\<lambda>t. (t, TaskCancelled ''Cancelled''))
              (filter (\<lambda>t. t \<notin> set timed_out) cancelled_running)
    \<and> tasks s' = filter (\<lambda>(k, t). t \<notin> set timed_out \<and> t \<notin> set cancelled_running) (tasks s)
    \<and> queue_done s' = queue_done s + length timed_out
          + length (filter (\<lambda>t. t \<notin> set timed_out) cancelled_running)
    \<and> workers s' = filter (\<lambda>(pid, w). WorkerId pid \<notin> metadata ` set (timed_out @ cancelled_running))
                      (workers s)
    \<and> set (stopped s') = set (stopped s)
          \<union> {pid \<in> fst ` set (workers s).
               WorkerId pid \<in> metadata ` set (timed_out @ cancelled_running)}
    \<and> pool_channel s' = pool_channel s"
proof -
  let ?vals = "map snd (tasks s)"
  have dv: "distinct ?vals" by (rule table_ok_values_distinct[OF ok])
  have to: "timed_out = filter (has_timeout now) ?vals"
    and ca: "cancelled_running = filter (\<lambda>t. started t \<and> cancelled t) ?vals"
    using insp by (auto simp: inspect_tasks_def Let_def)
  have d1: "distinct timed_out" and d2: "distinct cancelled_running"
    using dv by (simp_all only: to ca distinct_filter)
  have s1: "set timed_out \<subseteq> snd ` set (tasks s)"
    and s2: "set cancelled_running \<subseteq> snd ` set (tasks s)"
    by (auto simp: to ca)
  have st: "\<forall>t \<in> set (timed_out @ cancelled_running). started t"
    by (auto simp: to ca has_timeout_started)
  have "\<forall>t \<in> set (timed_out @ cancelled_running). task_payload t = None"
  proof
    fix t assume t: "t \<in> set (timed_out @ cancelled_running)"
    with s1 s2 obtain k where "(k, t) \<in> set (tasks s)" by auto
    with cl st t show "task_payload t = None" by (auto simp: claimed_ok_def)
  qed
  from worker_ids[OF this] obtain pids where
    pids: "map metadata (timed_out @ cancelled_running) = map WorkerId pids" by blast
  then have img: "metadata ` set (timed_out @ cancelled_running) = WorkerId ` set pids"
    by (metis set_map)
  let ?s2 = "fold (\<lambda>t. task_done (number t) (TaskCancelled ''Cancelled'')) cancelled_running
              (fold (\<lambda>t. task_done (number t) (TimeoutError ''Timeout'')) timed_out s)"
  note s2eq = fold_task_done_twice[OF ok d1 s1 d2 s2,
      of "TaskCancelled ''Cancelled''" "TimeoutError ''Timeout''"]
  from stop_each_pids[of pids ?s2] obtain log where
    log: "stop_each (map WorkerId pids) ?s2 =
           Inr (?s2\<lparr>workers := filter (\<lambda>(k, _). k \<notin> set pids) (workers ?s2),
                  stopped := stopped ?s2 @ log\<rparr>)"
      "set log = set pids \<inter> fst ` set (workers ?s2)" by blast
  have upd: "update_tasks now s = stop_each (map WorkerId pids) ?s2"
    using pids by (simp add: update_tasks_def insp)
  have w2: "workers ?s2 = workers s" and st2: "stopped ?s2 = stopped s"
    and ch2: "pool_channel ?s2 = pool_channel s"
    by (simp_all add: s2eq)
  have flt: "filter (\<lambda>(k, _). k \<notin> set pids) (workers s)
      = filter (\<lambda>(pid, w). WorkerId pid \<notin> metadata ` set (timed_out @ cancelled_running))
                      (workers s)"
    unfolding img by (auto intro!: filter_cong)
  have stp: "set (stopped s @ log) = set (stopped s)
          \<union> {pid \<in> fst ` set (workers s).
               WorkerId pid \<in> metadata ` set (timed_out @ cancelled_running)}"
    unfolding img using log(2) by (auto simp: w2)
  show ?thesis
    unfolding upd log(1)
    apply (rule exI, rule conjI, rule refl)
    using flt stp by (simp add: w2 st2 ch2) (simp add: s2eq)
qed

lemma filter_map_pair:
  "distinct xs \<Longrightarrow>
   filter (\<lambda>(t', r). t' = t) (map (\<lambda>t. (t, r0)) xs) = (if t \<in> set xs then [(t, r0)] else [])"
  by (induction xs) auto

lemma map_of_filter_values:
  assumes ok: "table_ok ts" and t: "(number t, t) \<in> set ts" and np: "\<not> P t"
  shows "map_of (filter (\<lambda>(k, t). P t) ts) (number t) = None"
proof (rule ccontr)
  assume "map_of (filter (\<lambda>(k, t). P t) ts) (number t) \<noteq> None"
  then obtain t' where "map_of (filter (\<lambda>(k, t). P t) ts) (number t) = Some t'" by auto
  then have "(number t, t') \<in> set (filter (\<lambda>(k, t). P t) ts)" by (rule map_of_SomeD)
  then have in': "(number t, t') \<in> set ts" and p: "P t'" by auto
  from ok have "distinct (map fst ts)" by (simp add: table_ok_def)
  with in' t have "t' = t" by (metis map_of_table option.inject)
  with p np show False by simp
qed

text \<open>
  C5, as the spec states it: \<^verbatim>\<open>update_tasks\<close> resolves every started and cancelled task
  with \<^verbatim>\<open>TaskCancelled\<close>. A task that is cancelled and timed out at the same tick is
  resolved with \<^verbatim>\<open>TimeoutError\<close> instead, and \<^verbatim>\<open>TaskCancelled\<close> never reaches it.
\<close>

theorem update_tasks_both_counterexample:
  "started \<lparr>number = 1, timeout = Some 5, cancelled = True,
            metadata = WorkerId 7, timestamp = 10\<rparr>
   \<and> cancelled \<lparr>number = 1, timeout = Some 5, cancelled = True,
                metadata = WorkerId 7, timestamp = 10\<rparr>
   \<and> update_tasks 100
        ((pool_manager_init 1 :: (string, nat) pool_manager)
           \<lparr>tasks := [(1, \<lparr>number = 1, timeout = Some 5, cancelled = True,
                            metadata = WorkerId 7, timestamp = 10\<rparr>)],
            workers := [(7, \<lparr>is_alive = True, exitcode = None\<rparr>)]\<rparr>)
      = Inr ((pool_manager_init 1)
           \<lparr>set_results := [(\<lparr>number = 1, timeout = Some 5, cancelled = True,
                               metadata = WorkerId 7, timestamp = 10\<rparr>,
                              TimeoutError ''Timeout'')],
            queue_done := 1,
            stopped := [7]\<rparr>)"
  by (simp add: Let_def update_tasks_def inspect_tasks_def has_timeout_def started_def task_done_def
      stop_worker_def pool_manager_init_def)

text \<open>
  C5, amended: \<^verbatim>\<open>update_tasks\<close> resolves every timed-out task with \<^verbatim>\<open>TimeoutError\<close>,
  every started and cancelled task that is not timed out as well with
  \<^verbatim>\<open>TaskCancelled\<close>, removes all of them from the table, and then stops the workers
  whose pids these tasks hold in \<^verbatim>\<open>_metadata\<close>, as far as they are in the workers'
  dictionary.
\<close>

theorem update_tasks_resolves_and_stops:
  assumes "table_ok (tasks s)" and "claimed_ok (tasks s)"
    and "inspect_tasks now s = (timed_out, cancelled_running)"
  shows "\<exists>s'. update_tasks now s = Inr s'
    \<and> set_results s' = set_results s
          @ map (\<lambda>t. (t, TimeoutError ''Timeout'')) timed_out
          @ map (\<lambda>t. (t, TaskCancelled ''Cancelled''))
              (filter (\<lambda>t. t \<notin> set timed_out) cancelled_running)
    \<and> tasks s' = filter (\<lambda>(k, t). t \<notin> set timed_out \<and> t \<notin> set cancelled_running) (tasks s)
    \<and> workers s' = filter (\<lambda>(pid, w). WorkerId pid \<notin> metadata ` set (timed_out @ cancelled_running))
                      (workers s)
    \<and> set (stopped s') = set (stopped s)
          \<union> {pid \<in> fst ` set (workers s).
               WorkerId pid \<in> metadata ` set (timed_out @ cancelled_running)}"
  using update_tasks_effect[OF assms] by blast

theorem update_tasks_resolves_and_stops_witness:
  "table_ok [(1, \<lparr>number = 1, timeout = Some 5, cancelled = False,
                  metadata = WorkerId 7, timestamp = 10\<rparr>),
             (2, \<lparr>number = 2, timeout = None, cancelled = True,
                  metadata = WorkerId 8, timestamp = 20\<rparr>),
             (3, \<lparr>number = 3, timeout = None, cancelled = False,
                  metadata = Payload ''c'', timestamp = 0\<rparr>)]
   \<and> claimed_ok [(1, \<lparr>number = 1, timeout = Some 5, cancelled = False,
                  metadata = WorkerId 7, timestamp = 10\<rparr>),
             (2, \<lparr>number = 2, timeout = None, cancelled = True,
                  metadata = WorkerId 8, timestamp = 20\<rparr>),
             (3, \<lparr>number = 3, timeout = None, cancelled = False,
                  metadata = Payload ''c'', timestamp = 0\<rparr>)]
   \<and> update_tasks 100
        ((pool_manager_init 3 :: (string, nat) pool_manager)
           \<lparr>tasks := [(1, \<lparr>number = 1, timeout = Some 5, cancelled = False,
                            metadata = WorkerId 7, timestamp = 10\<rparr>),
                       (2, \<lparr>number = 2, timeout = None, cancelled = True,
                            metadata = WorkerId 8, timestamp = 20\<rparr>),
                       (3, \<lparr>number = 3, timeout = None, cancelled = False,
                            metadata = Payload ''c'', timestamp = 0\<rparr>)],
            workers := [(7, \<lparr>is_alive = True, exitcode = None\<rparr>),
                        (8, \<lparr>is_alive = True, exitcode = None\<rparr>),
                        (9, \<lparr>is_alive = True, exitcode = None\<rparr>)]\<rparr>)
      = Inr ((pool_manager_init 3)
           \<lparr>tasks := [(3, \<lparr>number = 3, timeout = None, cancelled = False,
                            metadata = Payload ''c'', timestamp = 0\<rparr>)],
            set_results := [(\<lparr>number = 1, timeout = Some 5, cancelled = False,
                               metadata = WorkerId 7, timestamp = 10\<rparr>,
                              TimeoutError ''Timeout''),
                            (\<lparr>number = 2, timeout = None, cancelled = True,
                               metadata = WorkerId 8, timestamp = 20\<rparr>,
                              TaskCancelled ''Cancelled'')],
            queue_done := 2,
            workers := [(9, \<lparr>is_alive = True, exitcode = None\<rparr>)],
            stopped := [7, 8]\<rparr>)"
  using update_tasks_resolves_and_stops
    [of "(pool_manager_init 3 :: (string, nat) pool_manager)
           \<lparr>tasks := [(1, \<lparr>number = 1, timeout = Some 5, cancelled = False,
                            metadata = WorkerId 7, timestamp = 10\<rparr>),
                       (2, \<lparr>number = 2, timeout = None, cancelled = True,
                            metadata = WorkerId 8, timestamp = 20\<rparr>),
                       (3, \<lparr>number = 3, timeout = None, cancelled = False,
                            metadata = Payload ''c'', timestamp = 0\<rparr>)],
            workers := [(7, \<lparr>is_alive = True, exitcode = None\<rparr>),
                        (8, \<lparr>is_alive = True, exitcode = None\<rparr>),
                        (9, \<lparr>is_alive = True, exitcode = None\<rparr>)]\<rparr>"
        100
        "[\<lparr>number = 1, timeout = Some 5, cancelled = False,
           metadata = WorkerId 7, timestamp = 10\<rparr>]"
        "[\<lparr>number = 2, timeout = None, cancelled = True,
           metadata = WorkerId 8, timestamp = 20\<rparr>]"]
  by (simp add: Let_def table_ok_def claimed_ok_def task_payload_def update_tasks_def inspect_tasks_def
      has_timeout_def started_def task_done_def stop_worker_def pool_manager_init_def)

text \<open>
  C10. A task that is timed out and cancelled at the same tick is in both lists of
  \<^verbatim>\<open>inspect_tasks\<close>; \<^verbatim>\<open>update_tasks\<close> hands it exactly one outcome, the
  \<^verbatim>\<open>TimeoutError\<close>: after the loop over the timed-out tasks its number is gone from the
  table, so that the \<^verbatim>\<open>task_done\<close> of the second loop changes nothing.
\<close>

theorem update_tasks_timeout_wins:
  assumes ok: "table_ok (tasks s)" and cl: "claimed_ok (tasks s)"
    and t: "(number t, t) \<in> set (tasks s)"
    and timed: "has_timeout now t" and canc: "cancelled t"
  shows "t \<in> set (fst (inspect_tasks now s)) \<and> t \<in> set (snd (inspect_tasks now s))
    \<and> (\<exists>s'. update_tasks now s = Inr s'
          \<and> filter (\<lambda>(t', r). t' = t) (drop (length (set_results s)) (set_results s'))
              = [(t, TimeoutError ''Timeout'')]
          \<and> map_of (tasks s') (number t) = None)
    \<and> (let s1 = fold (\<lambda>t. task_done (number t) (TimeoutError ''Timeout''))
                    (fst (inspect_tasks now s)) s
        in map_of (tasks s1) (number t) = None
           \<and> task_done (number t) (TaskCancelled ''Cancelled'') s1 = s1)"
proof -
  obtain to ca where insp: "inspect_tasks now s = (to, ca)" by (cases "inspect_tasks now s")
  have to: "to = filter (has_timeout now) (map snd (tasks s))"
    and ca: "ca = filter (\<lambda>t. started t \<and> cancelled t) (map snd (tasks s))"
    using insp by (auto simp: inspect_tasks_def Let_def)
  have tv: "t \<in> set (map snd (tasks s))" using t by force
  have tto: "t \<in> set to" using tv timed by (simp add: to)
  have tca: "t \<in> set ca" using tv timed canc by (simp add: ca has_timeout_started)
  have dto: "distinct to"
    using table_ok_values_distinct[OF ok] by (simp only: to distinct_filter)
  have sto: "set to \<subseteq> snd ` set (tasks s)" by (auto simp: to)
  from update_tasks_effect[OF ok cl insp] obtain s' where
    up: "update_tasks now s = Inr s'"
    and res: "set_results s' = set_results s
          @ map (\<lambda>t. (t, TimeoutError ''Timeout'')) to
          @ map (\<lambda>t. (t, TaskCancelled ''Cancelled'')) (filter (\<lambda>t. t \<notin> set to) ca)"
    and tab: "tasks s' = filter (\<lambda>(k, t). t \<notin> set to \<and> t \<notin> set ca) (tasks s)"
    by blast
  have new: "filter (\<lambda>(t', r). t' = t) (drop (length (set_results s)) (set_results s'))
              = [(t, TimeoutError ''Timeout'')]"
  proof -
    have "filter (\<lambda>(t', r). t' = t)
            (map (\<lambda>t. (t, TaskCancelled ''Cancelled'')) (filter (\<lambda>t. t \<notin> set to) ca)) = []"
      using tto by (auto simp: filter_empty_conv)
    with tto dto show ?thesis by (simp add: res filter_map_pair)
  qed
  have gone: "map_of (tasks s') (number t) = None"
    unfolding tab using map_of_filter_values[OF ok t, of "\<lambda>t. t \<notin> set to \<and> t \<notin> set ca"] tto
    by simp
  let ?s1 = "fold (\<lambda>t. task_done (number t) (TimeoutError ''Timeout'')) to s"
  have "tasks ?s1 = filter (\<lambda>(k, t). t \<notin> set to) (tasks s)"
    by (simp add: fold_task_done[OF ok dto sto])
  then have gone1: "map_of (tasks ?s1) (number t) = None"
    using map_of_filter_values[OF ok t, of "\<lambda>t. t \<notin> set to"] tto by simp
  then have "task_done (number t) (TaskCancelled ''Cancelled'') ?s1 = ?s1"
    by (simp add: task_done_def)
  with gone1 up new gone tto tca show ?thesis
    by (simp add: insp Let_def)
qed

theorem update_tasks_timeout_wins_witness:
  "table_ok [(4, \<lparr>number = 4, timeout = Some 30, cancelled = True,
                  metadata = WorkerId 11, timestamp = 50\<rparr>),
             (6, \<lparr>number = 6, timeout = None, cancelled = True,
                  metadata = WorkerId 12, timestamp = 60\<rparr>)]
   \<and> claimed_ok [(4, \<lparr>number = 4, timeout = Some 30, cancelled = True,
                  metadata = WorkerId 11, timestamp = 50\<rparr>),
             (6, \<lparr>number = 6, timeout = None, cancelled = True,
                  metadata = WorkerId 12, timestamp = 60\<rparr>)]
   \<and> has_timeout 90 \<lparr>number = 4, timeout = Some 30, cancelled = True,
                  metadata = WorkerId 11, timestamp = 50\<rparr>
   \<and> cancelled \<lparr>number = 4, timeout = Some 30, cancelled = True,
                  metadata = WorkerId 11, timestamp = 50\<rparr>
   \<and> update_tasks 90
        ((pool_manager_init 2 :: (string, nat) pool_manager)
           \<lparr>tasks := [(4, \<lparr>number = 4, timeout = Some 30, cancelled = True,
                  metadata = WorkerId 11, timestamp = 50\<rparr>),
             (6, \<lparr>number = 6, timeout = None, cancelled = True,
                  metadata = WorkerId 12, timestamp = 60\<rparr>)],
            workers := [(11, \<lparr>is_alive = True, exitcode = None\<rparr>),
                        (12, \<lparr>is_alive = True, exitcode = None\<rparr>)]\<rparr>)
      = Inr ((pool_manager_init 2)
           \<lparr>set_results := [(\<lparr>number = 4, timeout = Some 30, cancelled = True,
                               metadata = WorkerId 11, timestamp = 50\<rparr>,
                              TimeoutError ''Timeout''),
                            (\<lparr>number = 6, timeout = None, cancelled = True,
                               metadata = WorkerId 12, timestamp = 60\<rparr>,
                              TaskCancelled ''Cancelled'')],
            queue_done := 2,
            stopped := [11, 12]\<rparr>)"
  using update_tasks_timeout_wins
    [of "(pool_manager_init 2 :: (string, nat) pool_manager)
           \<lparr>tasks := [(4, \<lparr>number = 4, timeout = Some 30, cancelled = True,
                  metadata = WorkerId 11, timestamp = 50\<rparr>),
             (6, \<lparr>number = 6, timeout = None, cancelled = True,
                  metadata = WorkerId 12, timestamp = 60\<rparr>)],
            workers := [(11, \<lparr>is_alive = True, exitcode = None\<rparr>),
                        (12, \<lparr>is_alive = True, exitcode = None\<rparr>)]\<rparr>"
        "\<lparr>number = 4, timeout = Some 30, cancelled = True,
                  metadata = WorkerId 11, timestamp = 50\<rparr>"
        90]
  by (simp add: Let_def table_ok_def claimed_ok_def task_payload_def update_tasks_def inspect_tasks_def
      has_timeout_def started_def task_done_def stop_worker_def pool_manager_init_def)

section \<open>Crashed workers\<close>

lemma fold_delete_keys:
  "fold (\<lambda>(pid, w). AList.delete pid) es ws = filter (\<lambda>(k, _). k \<notin> fst ` set es) ws"
proof (induction es arbitrary: ws)
  case Nil
  then show ?case by simp
next
  case (Cons e es)
  obtain pid w where e: "e = (pid, w)" by (cases e)
  show ?case
    by (simp add: e Cons.IH) (auto simp: AList.delete_eq intro!: filter_cong)
qed

lemma inspect_workers_alive:
  assumes d: "distinct (map fst (workers s))"
  shows "workers (snd (inspect_workers s)) = alive_workers s"
proof -
  have "filter (\<lambda>(k, _). k \<notin> fst ` set (expired s)) (workers s) = alive_workers s"
    unfolding alive_workers_def
  proof (rule filter_cong[OF refl])
    fix x assume x: "x \<in> set (workers s)"
    obtain k w where kw: "x = (k, w)" by (cases x)
    have "k \<in> fst ` set (expired s) \<longleftrightarrow> \<not> is_alive w"
    proof
      assume "k \<in> fst ` set (expired s)"
      then obtain w' where w': "(k, w') \<in> set (workers s)" "\<not> is_alive w'"
        by (auto simp: expired_def)
      from d w'(1) have "map_of (workers s) k = Some w'" by (rule map_of_is_SomeI)
      moreover from d x kw have "map_of (workers s) k = Some w" by (simp add: map_of_is_SomeI)
      ultimately have "w' = w" by simp
      with w' show "\<not> is_alive w" by simp
    next
      assume "\<not> is_alive w"
      with x kw show "k \<in> fst ` set (expired s)" by (force simp: expired_def)
    qed
    then show "(case x of (k, _) \<Rightarrow> k \<notin> fst ` set (expired s)) = (case x of (pid, w) \<Rightarrow> is_alive w)"
      by (simp add: kw)
  qed
  then show ?thesis by (simp add: inspect_workers_def fold_delete_keys)
qed

lemma inspect_workers_abnormal: "fst (inspect_workers s) = abnormal s"
  by (simp add: inspect_workers_def expired_def abnormal_def split_def conj_commute)

lemma abnormal_distinct: "distinct (map fst (workers s)) \<Longrightarrow> distinct (map fst (abnormal s))"
proof -
  assume d: "distinct (map fst (workers s))"
  have "map fst (abnormal s)
      = map fst (filter (\<lambda>(pid, w). \<not> is_alive w \<and> exitcode w \<noteq> Some 0) (workers s))"
    by (simp add: abnormal_def split_def comp_def)
  with d show ?thesis by (simp add: distinct_map_filter)
qed

lemma update_fresh: "k \<notin> fst ` set ws \<Longrightarrow> AList.update k v ws = ws @ [(k, v)]"
  by (induction ws) auto

lemma create_workers_fresh:
  "distinct (map fst (workers s) @ map (\<lambda>i. pids (spawned s + i)) [0..<n]) \<Longrightarrow>
   ((new_worker pids) ^^ n) s =
     s\<lparr>workers := workers s @ map (\<lambda>i. (pids (spawned s + i), \<lparr>is_alive = True, exitcode = None\<rparr>)) [0..<n],
       spawned := spawned s + n\<rparr>"
proof (induction n)
  case 0
  then show ?case by simp
next
  case (Suc n)
  from Suc.prems have d: "distinct (map fst (workers s) @ map (\<lambda>i. pids (spawned s + i)) [0..<n])"
    by simp
  let ?s1 = "s\<lparr>workers := workers s @ map (\<lambda>i. (pids (spawned s + i), \<lparr>is_alive = True, exitcode = None\<rparr>)) [0..<n],
       spawned := spawned s + n\<rparr>"
  have s1: "((new_worker pids) ^^ n) s = ?s1" by (rule Suc.IH[OF d])
  have fresh: "pids (spawned s + n) \<notin> fst ` set (workers ?s1)"
    using Suc.prems by (auto simp: image_iff)
  have "((new_worker pids) ^^ Suc n) s = new_worker pids ?s1"
    by (simp add: s1)
  also have "\<dots> = s\<lparr>workers := workers s
          @ map (\<lambda>i. (pids (spawned s + i), \<lparr>is_alive = True, exitcode = None\<rparr>)) [0..<Suc n],
       spawned := spawned s + Suc n\<rparr>"
    using update_fresh[OF fresh] by (simp add: new_worker_def)
  finally show ?case .
qed

lemma find_filter_agree:
  "(\<And>x. x \<in> set xs \<Longrightarrow> P x \<Longrightarrow> Q x) \<Longrightarrow> find P (filter Q xs) = find P xs"
  by (induction xs) auto

lemma find_in_table:
  "find P (map snd ts) = Some t \<Longrightarrow> t \<in> snd ` set ts \<and> P t"
  by (auto simp: find_Some_iff)

lemma expired_outcomes_other:
  assumes "metadata t = WorkerId pid" and "pid \<notin> fst ` set es"
  shows "expired_outcomes es (s\<lparr>tasks := filter (\<lambda>(k, t'). t' \<noteq> t) (tasks s),
                                  set_results := rs, queue_done := q\<rparr>)
         = expired_outcomes es s"
  using assms(2)
proof (induction es)
  case Nil
  then show ?case by simp
next
  case (Cons e es)
  obtain p code where e: "e = (p, code)" by (cases e)
  with Cons.prems have ne: "p \<noteq> pid" by auto
  have "map snd (filter (\<lambda>(k, t'). t' \<noteq> t) (tasks s)) = filter (\<lambda>t'. t' \<noteq> t) (map snd (tasks s))"
    by (simp add: filter_map comp_def split_def)
  moreover have "find (\<lambda>t'. metadata t' = WorkerId p) (filter (\<lambda>t'. t' \<noteq> t) (map snd (tasks s)))
      = find (\<lambda>t'. metadata t' = WorkerId p) (map snd (tasks s))"
    using ne assms(1) by (intro find_filter_agree) auto
  ultimately have "find (\<lambda>t'. metadata t' = WorkerId p)
        (map snd (filter (\<lambda>(k, t'). t' \<noteq> t) (tasks s)))
      = find (\<lambda>t'. metadata t' = WorkerId p) (map snd (tasks s))" by simp
  with Cons show ?case by (simp add: e split: option.splits)
qed

text \<open>The loop of \<^verbatim>\<open>update_workers\<close> over the expirations of workers with different pids.\<close>

lemma fold_handle_worker_expiration:
  "table_ok (tasks s) \<Longrightarrow> distinct (map fst es) \<Longrightarrow>
   fold handle_worker_expiration es s =
     s\<lparr>tasks := filter (\<lambda>(k, t). t \<notin> fst ` set (expired_outcomes es s)) (tasks s),
       set_results := set_results s @ expired_outcomes es s,
       queue_done := queue_done s + length (expired_outcomes es s)\<rparr>"
proof (induction es arbitrary: s)
  case Nil
  then show ?case by simp
next
  case (Cons e es)
  obtain pid code where e: "e = (pid, code)" by (cases e)
  from Cons.prems have des: "distinct (map fst es)" and nin: "pid \<notin> fst ` set es"
    by (auto simp: e)
  show ?case
  proof (cases "find (\<lambda>t. metadata t = WorkerId pid) (map snd (tasks s))")
    case None
    then have "handle_worker_expiration e s = s"
      by (simp add: handle_worker_expiration_def worker_id_lookup_def e)
    with None Cons.IH[OF Cons.prems(1) des] show ?thesis by (simp add: e)
  next
    case (Some t)
    let ?r = "ProcessExpired ''Abnormal termination'' code :: 'b outcome"
    from find_in_table[OF Some] have tin: "t \<in> snd ` set (tasks s)"
      and meta: "metadata t = WorkerId pid" by simp_all
    from tin Cons.prems(1) have kt: "(number t, t) \<in> set (tasks s)"
      by (force simp: table_ok_def)
    let ?s1 = "s\<lparr>tasks := filter (\<lambda>(k, t'). t' \<noteq> t) (tasks s),
       set_results := set_results s @ [(t, ?r)],
       queue_done := Suc (queue_done s)\<rparr>"
    have "fold (\<lambda>t. task_done (number t) ?r) [t] s =
       s\<lparr>tasks := filter (\<lambda>(k, t'). t' \<notin> set [t]) (tasks s),
       set_results := set_results s @ map (\<lambda>t. (t, ?r)) [t],
       queue_done := queue_done s + length [t]\<rparr>"
      using tin by (intro fold_task_done[OF Cons.prems(1)]) auto
    then have td: "task_done (number t) ?r s = ?s1" by simp
    have h: "handle_worker_expiration e s = ?s1"
      using Some td by (simp add: handle_worker_expiration_def worker_id_lookup_def e)
    have ok1: "table_ok (tasks ?s1)" using Cons.prems(1) by (simp add: table_ok_filter)
    have same: "expired_outcomes es ?s1 = expired_outcomes es s"
      by (rule expired_outcomes_other[OF meta nin])
    have "fold handle_worker_expiration (e # es) s = fold handle_worker_expiration es ?s1"
      by (simp add: h)
    also have "\<dots> = ?s1\<lparr>tasks := filter (\<lambda>(k, t). t \<notin> fst ` set (expired_outcomes es s)) (tasks ?s1),
       set_results := set_results ?s1 @ expired_outcomes es s,
       queue_done := queue_done ?s1 + length (expired_outcomes es s)\<rparr>"
      using Cons.IH[OF ok1 des] by (simp only: same)
    also have "\<dots> = s\<lparr>tasks := filter (\<lambda>(k, t). t \<notin> fst ` set (expired_outcomes (e # es) s)) (tasks s),
       set_results := set_results s @ expired_outcomes (e # es) s,
       queue_done := queue_done s + length (expired_outcomes (e # es) s)\<rparr>"
      using Some by (simp add: e split_def conj_commute)
    finally show ?thesis .
  qed
qed

lemma expired_outcomes_tasks:
  "tasks s = tasks s' \<Longrightarrow> expired_outcomes es s = expired_outcomes es s'"
  by (induction es s rule: expired_outcomes.induct) (simp_all split: option.splits)

text \<open>
  C7. \<^verbatim>\<open>inspect_workers\<close> reports the workers that are dead with a non-zero exit code.
  For each of them \<^verbatim>\<open>update_workers\<close> resolves the task of the table whose
  \<^verbatim>\<open>_metadata\<close> is the worker's pid (the first one in table order) with
  \<^verbatim>\<open>ProcessExpired\<close> and the exit code, and does nothing when there is no such task.
  Then \<^verbatim>\<open>create_workers\<close> spawns workers until the dictionary has the configured
  number of entries. The pids of the spawned processes are new and all different.
\<close>

theorem update_workers_resolves_expired:
  assumes ok: "table_ok (tasks s)" and dw: "distinct (map fst (workers s))"
    and fresh: "distinct (map fst (alive_workers s)
        @ map (\<lambda>i. pids (spawned s + i)) [0..<workers_number s - length (alive_workers s)])"
  shows "fst (inspect_workers s) = abnormal s
    \<and> set_results (update_workers pids s) = set_results s @ expired_outcomes (abnormal s) s
    \<and> tasks (update_workers pids s)
        = filter (\<lambda>(k, t). t \<notin> fst ` set (expired_outcomes (abnormal s) s)) (tasks s)
    \<and> queue_done (update_workers pids s) = queue_done s + length (expired_outcomes (abnormal s) s)
    \<and> workers (update_workers pids s)
        = alive_workers s
          @ map (\<lambda>i. (pids (spawned s + i), \<lparr>is_alive = True, exitcode = None\<rparr>))
              [0..<workers_number s - length (alive_workers s)]
    \<and> length (workers (update_workers pids s)) = max (workers_number s) (length (alive_workers s))"
proof -
  let ?s1 = "s\<lparr>workers := alive_workers s\<rparr>"
  let ?out = "expired_outcomes (abnormal s) s"
  have insp: "inspect_workers s = (abnormal s, ?s1)"
  proof -
    have "snd (inspect_workers s) = ?s1"
      using inspect_workers_alive[OF dw] by (simp add: inspect_workers_def)
    with inspect_workers_abnormal[of s] show ?thesis by (metis prod.collapse)
  qed
  have ok1: "table_ok (tasks ?s1)" using ok by simp
  have out1: "expired_outcomes (abnormal s) ?s1 = ?out"
    by (rule expired_outcomes_tasks) simp
  let ?s2 = "fold handle_worker_expiration (abnormal s) ?s1"
  have s2: "?s2 = s\<lparr>workers := alive_workers s,
       tasks := filter (\<lambda>(k, t). t \<notin> fst ` set ?out) (tasks s),
       set_results := set_results s @ ?out,
       queue_done := queue_done s + length ?out\<rparr>"
    using fold_handle_worker_expiration[OF ok1 abnormal_distinct[OF dw]]
    by (simp add: out1)
  let ?n = "workers_number s - length (alive_workers s)"
  have fresh2: "distinct (map fst (workers ?s2) @ map (\<lambda>i. pids (spawned ?s2 + i)) [0..<?n])"
    using fresh by (simp add: s2)
  have "update_workers pids s = ((new_worker pids) ^^ ?n) ?s2"
    by (simp add: update_workers_def insp create_workers_def) (simp add: s2)
  also have "\<dots> = ?s2\<lparr>workers := workers ?s2
        @ map (\<lambda>i. (pids (spawned ?s2 + i), \<lparr>is_alive = True, exitcode = None\<rparr>)) [0..<?n],
       spawned := spawned ?s2 + ?n\<rparr>"
    by (rule create_workers_fresh[OF fresh2])
  finally have "update_workers pids s = ?s2\<lparr>workers := workers ?s2
        @ map (\<lambda>i. (pids (spawned ?s2 + i), \<lparr>is_alive = True, exitcode = None\<rparr>)) [0..<?n],
       spawned := spawned ?s2 + ?n\<rparr>" .
  then show ?thesis
    by (simp add: s2 inspect_workers_abnormal)
qed

theorem update_workers_resolves_expired_witness:
  "table_ok [(1::nat, \<lparr>number = 1, timeout = None, cancelled = False,
                  metadata = WorkerId 7, timestamp = 10\<rparr>),
             (2, \<lparr>number = 2, timeout = None, cancelled = False,
                  metadata = WorkerId 8, timestamp = 20\<rparr>),
             (3, \<lparr>number = 3, timeout = None, cancelled = False,
                  metadata = Payload ''c'', timestamp = 0\<rparr>)]
   \<and> update_workers (\<lambda>k. 100 + k)
        ((pool_manager_init 3 :: (string, nat) pool_manager)
           \<lparr>tasks := [(1, \<lparr>number = 1, timeout = None, cancelled = False,
                            metadata = WorkerId 7, timestamp = 10\<rparr>),
                       (2, \<lparr>number = 2, timeout = None, cancelled = False,
                            metadata = WorkerId 8, timestamp = 20\<rparr>),
                       (3, \<lparr>number = 3, timeout = None, cancelled = False,
                            metadata = Payload ''c'', timestamp = 0\<rparr>)],
            workers := [(7, \<lparr>is_alive = True, exitcode = None\<rparr>),
                        (8, \<lparr>is_alive = False, exitcode = Some 1\<rparr>),
                        (9, \<lparr>is_alive = False, exitcode = Some (- 9)\<rparr>),
                        (10, \<lparr>is_alive = False, exitcode = Some 0\<rparr>)]\<rparr>)
      = (pool_manager_init 3)
           \<lparr>tasks := [(1, \<lparr>number = 1, timeout = None, cancelled = False,
                            metadata = WorkerId 7, timestamp = 10\<rparr>),
                       (3, \<lparr>number = 3, timeout = None, cancelled = False,
                            metadata = Payload ''c'', timestamp = 0\<rparr>)],
            set_results := [(\<lparr>number = 2, timeout = None, cancelled = False,
                               metadata = WorkerId 8, timestamp = 20\<rparr>,
                             ProcessExpired ''Abnormal termination'' (Some 1))],
            queue_done := 1,
            workers := [(7, \<lparr>is_alive = True, exitcode = None\<rparr>),
                        (100, \<lparr>is_alive = True, exitcode = None\<rparr>),
                        (101, \<lparr>is_alive = True, exitcode = None\<rparr>)],
            spawned := 2\<rparr>"
  using update_workers_resolves_expired
    [of "(pool_manager_init 3 :: (string, nat) pool_manager)
           \<lparr>tasks := [(1, \<lparr>number = 1, timeout = None, cancelled = False,
                            metadata = WorkerId 7, timestamp = 10\<rparr>),
                       (2, \<lparr>number = 2, timeout = None, cancelled = False,
                            metadata = WorkerId 8, timestamp = 20\<rparr>),
                       (3, \<lparr>number = 3, timeout = None, cancelled = False,
                            metadata = Payload ''c'', timestamp = 0\<rparr>)],
            workers := [(7, \<lparr>is_alive = True, exitcode = None\<rparr>),
                        (8, \<lparr>is_alive = False, exitcode = Some 1\<rparr>),
                        (9, \<lparr>is_alive = False, exitcode = Some (- 9)\<rparr>),
                        (10, \<lparr>is_alive = False, exitcode = Some 0\<rparr>)]\<rparr>"
        "\<lambda>k. 100 + k"]
  by (simp add: table_ok_def pool_manager_init_def update_workers_def inspect_workers_def
      expired_def handle_worker_expiration_def worker_id_lookup_def task_done_def
      create_workers_def new_worker_def numeral_2_eq_2)

section \<open>Properties of the scheduler loop\<close>

lemma task_scheduler_loop_round:
  "task_scheduler_loop ((True, item) # rest) s = task_scheduler_loop rest (scheduler_round item s)"
  by (simp add: scheduler_round_def split: option.splits)

lemma task_scheduler_loop_fold:
  "task_scheduler_loop obs pm =
     (if list_all fst obs then Blocked else Exited,
      fold scheduler_round (map snd (takeWhile fst obs)) pm)"
proof (induction obs arbitrary: pm)
  case Nil
  then show ?case by simp
next
  case (Cons ob obs)
  obtain flag item where ob: "ob = (flag, item)" by (cases ob)
  show ?case
  proof (cases flag)
    case True
    then show ?thesis
      using Cons.IH[of "scheduler_round item pm"]
      by (simp only: ob task_scheduler_loop_round) simp
  next
    case False
    then show ?thesis by (simp add: ob)
  qed
qed

text \<open>
  The sentinel of \<^verbatim>\<open>Pool.stop\<close> is put after the flag is cleared, however the steps of
  \<^verbatim>\<open>Pool.stop\<close> interleave with steps that put no sentinel.
\<close>

lemma stop_order_no_sentinel: "Put_sentinel \<notin> set ms \<Longrightarrow> stop_order b ms"
  by (induction b ms rule: stop_order.induct) auto

lemma stop_order_mono: "stop_order b ms \<Longrightarrow> stop_order True ms"
  by (induction b ms rule: stop_order.induct) auto

lemma shuffles_sentinel:
  "ms \<in> shuffles [Put_sentinel] others \<Longrightarrow> Put_sentinel \<notin> set others \<Longrightarrow> stop_order True ms"
proof (induction others arbitrary: ms)
  case Nil
  then show ?case by simp
next
  case (Cons m others)
  from Cons.prems(1) consider (stop) "ms = Put_sentinel # m # others"
    | (other) ms' where "ms = m # ms'" "ms' \<in> shuffles [Put_sentinel] others"
    by auto
  then show ?case
  proof cases
    case stop
    with Cons.prems(2) show ?thesis by (simp add: stop_order_no_sentinel)
  next
    case other
    with Cons.IH[OF other(2)] Cons.prems(2) show ?thesis by (cases m) auto
  qed
qed

lemma shuffles_pool_stop:
  "ms \<in> shuffles pool_stop others \<Longrightarrow> Put_sentinel \<notin> set others \<Longrightarrow> stop_order b ms"
proof (induction others arbitrary: ms b)
  case Nil
  then show ?case by (simp add: pool_stop_def)
next
  case (Cons m others)
  from Cons.prems(1) consider (stop) ms' where "ms = Clear_alive # ms'"
      "ms' \<in> shuffles [Put_sentinel] (m # others)"
    | (other) ms' where "ms = m # ms'" "ms' \<in> shuffles pool_stop others"
    by (auto simp: pool_stop_def)
  then show ?case
  proof cases
    case stop
    with shuffles_sentinel[OF stop(2)] Cons.prems(2) show ?thesis by simp
  next
    case other
    from Cons.prems(2) have "Put_sentinel \<notin> set others" "m \<noteq> Put_sentinel" by auto
    with Cons.IH[OF other(2)] other(1) show ?thesis by (cases m) auto
  qed
qed

lemma scheduler_ok_init: "scheduler_ok (scheduler_init submitted)"
  by (auto simp: scheduler_ok_def scheduler_init_def)

lemma do_move_ok:
  assumes ok: "scheduler_ok s" and ord: "stop_order (\<not> alive s) (m # ms)"
  shows "scheduler_ok (do_move m s) \<and> stop_order (\<not> alive (do_move m s)) ms"
proof (cases m)
  case Tick
  show ?thesis
  proof (cases "position s")
    case At_test
    with ok ord Tick show ?thesis
      by (auto simp: scheduler_ok_def butlast_append dest: in_set_butlastD)
  next
    case At_get
    show ?thesis
    proof (cases "task_queue s")
      case Nil
      with ok ord Tick At_get show ?thesis by simp
    next
      case (Cons item queue)
      with ok ord Tick At_get show ?thesis
        by (auto simp: scheduler_ok_def butlast_append)
    qed
  next
    case At_end
    with ok ord Tick show ?thesis by simp
  qed
next
  case (Put task)
  with ok ord show ?thesis
    by (auto simp: scheduler_ok_def split: position.splits)
next
  case Clear_alive
  with ok ord show ?thesis
    by (auto simp: scheduler_ok_def split: position.splits)
next
  case Put_sentinel
  with ok ord show ?thesis
    by (auto simp: scheduler_ok_def split: position.splits)
qed

lemma fold_do_move_ok:
  "scheduler_ok s \<Longrightarrow> stop_order (\<not> alive s) ms \<Longrightarrow> scheduler_ok (fold do_move ms s)"
proof (induction ms arbitrary: s)
  case Nil
  then show ?case by simp
next
  case (Cons m ms)
  from do_move_ok[OF Cons.prems] Cons.IH show ?case by simp
qed

text \<open>What the invariant says about a run in which the sentinel has been read.\<close>

lemma after_sentinel:
  assumes ok: "scheduler_ok s" and rd: "readings s = pre @ (True, None) # rest"
  shows "\<not> alive s \<and> list_all fst pre
    \<and> ((rest = [] \<and> position s = At_test) \<or> (rest = [(False, None)] \<and> position s = At_end))
    \<and> position (do_move Tick s) = At_end
    \<and> readings (do_move Tick s) = pre @ [(True, None), (False, None)]"
proof -
  from ok rd have dead: "\<not> alive s" by (simp add: scheduler_ok_def)
  have last_only: "rest' = []"
    if "rs = pre @ (True, None) # rest'" "(True, None) \<notin> set (butlast rs)" for rs rest'
  proof (rule ccontr)
    assume "rest' \<noteq> []"
    then have "butlast rs = pre @ (True, None) # butlast rest'"
      using that(1) by (simp add: butlast_append)
    with that(2) show False by simp
  qed
  show ?thesis
  proof (cases "position s")
    case At_test
    with ok have g: "list_all fst (readings s)" "(True, None) \<notin> set (butlast (readings s))"
      by (simp_all add: scheduler_ok_def)
    from last_only[OF rd g(2)] have "rest = []" .
    with g(1) rd dead At_test show ?thesis by simp
  next
    case At_get
    with ok rd show ?thesis by (simp add: scheduler_ok_def)
  next
    case At_end
    with ok obtain pre0 where p0: "readings s = pre0 @ [(False, None)]" "list_all fst pre0"
      "(True, None) \<notin> set (butlast pre0)"
      by (auto simp: scheduler_ok_def)
    from rd p0(1) have "rest \<noteq> []" by (cases rest rule: rev_cases) auto
    then obtain rest0 x where rest: "rest = rest0 @ [x]" by (cases rest rule: rev_cases) auto
    with rd p0(1) have x: "x = (False, None)" and pre0: "pre0 = pre @ (True, None) # rest0"
      by simp_all
    from last_only[OF pre0 p0(3)] have "rest0 = []" .
    with rest x pre0 p0 rd dead At_end show ?thesis by simp
  qed
qed

text \<open>
  C3. A round of the scheduler loop marks a null sentinel or a cancelled task done in
  the queue without dispatching, and calls \<^verbatim>\<open>pool_manager.schedule\<close> on any other
  task; the loop runs these rounds for the items it retrieves while \<^verbatim>\<open>context.alive\<close>
  holds at the loop test. In every interleaving of \<^verbatim>\<open>Pool.stop\<close> with steps of the
  scheduler thread and submissions, once the thread has retrieved the null sentinel the
  flag is clear: the thread retrieves nothing more, its next step leaves the loop, and
  nothing behind the sentinel is dispatched.
\<close>

theorem scheduler_loop_exits_on_sentinel:
  "task_scheduler_loop obs pm =
     (if list_all fst obs then Blocked else Exited,
      fold scheduler_round (map snd (takeWhile fst obs)) pm)
   \<and> scheduler_round None pm = pm\<lparr>queue_done := Suc (queue_done pm)\<rparr>
   \<and> (cancelled task \<longrightarrow>
        scheduler_round (Some task) pm = pm\<lparr>queue_done := Suc (queue_done pm)\<rparr>)
   \<and> (\<not> cancelled task \<longrightarrow> scheduler_round (Some task) pm = schedule task pm)
   \<and> (moves \<in> shuffles pool_stop others \<and> Put_sentinel \<notin> set others
        \<and> readings (fold do_move moves (scheduler_init submitted)) = pre @ (True, None) # rest
      \<longrightarrow>
        \<not> alive (fold do_move moves (scheduler_init submitted))
        \<and> ((rest = [] \<and> position (fold do_move moves (scheduler_init submitted)) = At_test)
           \<or> (rest = [(False, None)]
              \<and> position (fold do_move moves (scheduler_init submitted)) = At_end))
        \<and> position (do_move Tick (fold do_move moves (scheduler_init submitted))) = At_end
        \<and> task_scheduler_loop
            (readings (do_move Tick (fold do_move moves (scheduler_init submitted)))) pm
           = (Exited, fold scheduler_round (map snd pre @ [None]) pm))"
proof -
  let ?s = "fold do_move moves (scheduler_init submitted)"
  have stop: "\<not> alive ?s
        \<and> ((rest = [] \<and> position ?s = At_test) \<or> (rest = [(False, None)] \<and> position ?s = At_end))
        \<and> position (do_move Tick ?s) = At_end
        \<and> task_scheduler_loop (readings (do_move Tick ?s)) pm
           = (Exited, fold scheduler_round (map snd pre @ [None]) pm)"
    if sh: "moves \<in> shuffles pool_stop others" and ns: "Put_sentinel \<notin> set others"
      and rd: "readings ?s = pre @ (True, None) # rest"
  proof -
    have "stop_order (\<not> alive (scheduler_init submitted)) moves"
      by (rule shuffles_pool_stop[OF sh ns])
    then have ok: "scheduler_ok ?s"
      by (rule fold_do_move_ok[OF scheduler_ok_init])
    note a = after_sentinel[OF ok rd]
    from a have pre: "list_all fst pre"
      and rds: "readings (do_move Tick ?s) = pre @ [(True, None), (False, None)]"
      by simp_all
    from pre have tw: "takeWhile fst (pre @ [(True, None), (False, None)]) = pre @ [(True, None)]"
      by (induction pre) auto
    have "task_scheduler_loop (readings (do_move Tick ?s)) pm
           = (Exited, fold scheduler_round (map snd pre @ [None]) pm)"
      unfolding rds task_scheduler_loop_fold tw by simp
    with a show ?thesis by blast
  qed
  show ?thesis
    using task_scheduler_loop_fold[of obs pm] stop
    by (simp add: scheduler_round_def)
qed

theorem scheduler_loop_exits_on_sentinel_witness:
  "[Put \<lparr>number = 1, timeout = None, cancelled = False,
          metadata = Payload ''a'', timestamp = 0\<rparr>,
    Tick, Tick, Tick, Clear_alive, Tick, Put_sentinel,
    Put \<lparr>number = 2, timeout = None, cancelled = False,
          metadata = Payload ''b'', timestamp = 0\<rparr>,
    Tick]
   \<in> shuffles pool_stop
       [Put \<lparr>number = 1, timeout = None, cancelled = False,
              metadata = Payload ''a'', timestamp = 0\<rparr>,
        Tick, Tick, Tick, Tick,
        Put \<lparr>number = 2, timeout = None, cancelled = False,
              metadata = Payload ''b'', timestamp = 0\<rparr>,
        Tick]
   \<and> readings (fold do_move
        [Put \<lparr>number = 1, timeout = None, cancelled = False,
              metadata = Payload ''a'', timestamp = 0\<rparr>,
         Tick, Tick, Tick, Clear_alive, Tick, Put_sentinel,
         Put \<lparr>number = 2, timeout = None, cancelled = False,
               metadata = Payload ''b'', timestamp = 0\<rparr>,
         Tick]
        (scheduler_init []))
     = [(True, Some \<lparr>number = 1, timeout = None, cancelled = False,
                     metadata = Payload ''a'', timestamp = 0\<rparr>)]
       @ (True, None) # []
   \<and> task_scheduler_loop
       (readings (do_move Tick (fold do_move
        [Put \<lparr>number = 1, timeout = None, cancelled = False,
              metadata = Payload ''a'', timestamp = 0\<rparr>,
         Tick, Tick, Tick, Clear_alive, Tick, Put_sentinel,
         Put \<lparr>number = 2, timeout = None, cancelled = False,
               metadata = Payload ''b'', timestamp = 0\<rparr>,
         Tick]
        (scheduler_init []))))
       (pool_manager_init 1 :: (string, nat) pool_manager)
     = (Exited,
        (pool_manager_init 1)
          \<lparr>tasks := [(1, \<lparr>number = 1, timeout = None, cancelled = False,
                           metadata = Payload ''a'', timestamp = 0\<rparr>)],
           queue_done := 1,
           pool_channel := [NewTask 1 (Payload ''a'')]\<rparr>)"
  using scheduler_loop_exits_on_sentinel
    [of "[]" "pool_manager_init 1 :: (string, nat) pool_manager"
        "\<lparr>number = 1, timeout = None, cancelled = False,
          metadata = Payload ''a'', timestamp = 0\<rparr>"
        "[Put \<lparr>number = 1, timeout = None, cancelled = False,
              metadata = Payload ''a'', timestamp = 0\<rparr>,
         Tick, Tick, Tick, Clear_alive, Tick, Put_sentinel,
         Put \<lparr>number = 2, timeout = None, cancelled = False,
               metadata = Payload ''b'', timestamp = 0\<rparr>,
         Tick]"
        "[Put \<lparr>number = 1, timeout = None, cancelled = False,
              metadata = Payload ''a'', timestamp = 0\<rparr>,
        Tick, Tick, Tick, Tick,
        Put \<lparr>number = 2, timeout = None, cancelled = False,
              metadata = Payload ''b'', timestamp = 0\<rparr>,
        Tick]"
        "[]"
        "[(True, Some \<lparr>number = 1, timeout = None, cancelled = False,
                     metadata = Payload ''a'', timestamp = 0\<rparr>)]"
        "[]"]
  by (simp add: Cons_in_shuffles_iff pool_stop_def scheduler_init_def pool_manager_init_def
      schedule_def register_def dispatch_def)

text \<open>
  What a round of the scheduler loop adds to the channel and to the table for the number
  \<open>n\<close>.
\<close>

lemma scheduler_round_channel:
  "filter (new_task_for n) (pool_channel (scheduler_round item s))
     = filter (new_task_for n) (pool_channel s)
       @ (case item of
            Some task \<Rightarrow> if \<not> cancelled task \<and> number task = n
                         then [NewTask n (metadata task)] else []
          | None \<Rightarrow> [])"
  by (auto simp: scheduler_round_def schedule_def dispatch_def register_def split: option.splits)

lemma scheduler_round_table:
  "map_of (tasks (scheduler_round item s)) n
     = (case item of
          Some task \<Rightarrow> if \<not> cancelled task \<and> number task = n then Some task
                       else map_of (tasks s) n
        | None \<Rightarrow> map_of (tasks s) n)"
  by (auto simp: scheduler_round_def schedule_def dispatch_def register_def update_conv'
      split: option.splits)

text \<open>
  C9. If every handle numbered \<open>n\<close> that the scheduler loop retrieves is cancelled by
  then, the loop sends no \<^verbatim>\<open>NewTask\<close> message for \<open>n\<close> and does not register \<open>n\<close>: the
  task is passed neither to \<^verbatim>\<open>schedule\<close> nor to \<^verbatim>\<open>dispatch\<close>.
\<close>

theorem cancelled_before_retrieval_never_dispatched:
  assumes "\<forall>task. (True, Some task) \<in> set obs \<and> number task = n \<longrightarrow> cancelled task"
  shows "filter (new_task_for n) (pool_channel (snd (task_scheduler_loop obs s)))
           = filter (new_task_for n) (pool_channel s)
     \<and> map_of (tasks (snd (task_scheduler_loop obs s))) n = map_of (tasks s) n"
  using assms
proof (induction obs arbitrary: s)
  case Nil
  then show ?case by simp
next
  case (Cons ob obs)
  obtain flag item where ob: "ob = (flag, item)" by (cases ob)
  show ?case
  proof (cases flag)
    case False
    then show ?thesis by (simp add: ob)
  next
    case True
    have step: "filter (new_task_for n) (pool_channel (scheduler_round item s))
                  = filter (new_task_for n) (pool_channel s)
       \<and> map_of (tasks (scheduler_round item s)) n = map_of (tasks s) n"
      using Cons.prems True
      by (cases item) (auto simp: ob scheduler_round_channel scheduler_round_table)
    have "\<forall>task. (True, Some task) \<in> set obs \<and> number task = n \<longrightarrow> cancelled task"
      using Cons.prems by auto
    from Cons.IH[OF this, of "scheduler_round item s"] step True show ?thesis
      by (simp only: ob task_scheduler_loop_round)
  qed
qed

theorem cancelled_before_retrieval_never_dispatched_witness:
  "task_scheduler_loop
        [(True, Some \<lparr>number = 1, timeout = None, cancelled = False,
                    metadata = Payload ''a'', timestamp = 0\<rparr>),
         (True, Some \<lparr>number = 2, timeout = None, cancelled = True,
                    metadata = Payload ''b'', timestamp = 0\<rparr>),
         (True, Some \<lparr>number = 3, timeout = None, cancelled = False,
                    metadata = Payload ''c'', timestamp = 0\<rparr>)]
        (pool_manager_init 1 :: (string, nat) pool_manager)
     = (Blocked,
        (pool_manager_init 1)
          \<lparr>tasks := [(1, \<lparr>number = 1, timeout = None, cancelled = False,
                           metadata = Payload ''a'', timestamp = 0\<rparr>),
                      (3, \<lparr>number = 3, timeout = None, cancelled = False,
                           metadata = Payload ''c'', timestamp = 0\<rparr>)],
           queue_done := 1,
           pool_channel := [NewTask 1 (Payload ''a''), NewTask 3 (Payload ''c'')]\<rparr>)
   \<and> filter (new_task_for 2) [NewTask 1 (Payload ''a''), NewTask 3 (Payload ''c'')
        :: (string metadata, nat outcome) message] = []"
  using cancelled_before_retrieval_never_dispatched
    [of "[(True, Some \<lparr>number = 1, timeout = None, cancelled = False,
                    metadata = Payload ''a'', timestamp = 0\<rparr>),
         (True, Some \<lparr>number = 2, timeout = None, cancelled = True,
                    metadata = Payload ''b'', timestamp = 0\<rparr>),
         (True, Some \<lparr>number = 3, timeout = None, cancelled = False,
                    metadata = Payload ''c'', timestamp = 0\<rparr>)]"
        2 "pool_manager_init 1 :: (string, nat) pool_manager"]
  by (simp add: pool_manager_init_def schedule_def register_def dispatch_def)

section \<open>The protocol of a worker\<close>

lemma in_append_cases:
  "xs @ ys = pre @ x # post \<Longrightarrow>
   (\<exists>m. xs = pre @ x # m \<and> post = m @ ys) \<or> (\<exists>m. pre = xs @ m \<and> ys = m @ x # post)"
  by (auto simp: append_eq_append_conv2 append_eq_Cons_conv)

lemma channel_failure_cases:
  "channel_failure e = Uncaught \<or> (\<exists>errno. channel_failure e = Os_exit errno)"
  by (cases e rule: channel_failure.cases) simp_all

lemma channel_failure_no_send [simp]:
  "channel_failure e \<noteq> Send m" "channel_failure e \<noteq> Recv m" "channel_failure e \<noteq> Execute p"
  "Send m \<noteq> channel_failure e" "Recv m \<noteq> channel_failure e" "Execute p \<noteq> channel_failure e"
  by (cases e rule: channel_failure.cases; simp)+

lemma fetch_task_actions:
  "fetch_task pid obs = (result, actions, rest) \<Longrightarrow>
   (\<forall>task_id r. Send (Results task_id r) \<notin> set actions)
   \<and> (\<forall>task_id payload sent. result = Fetched task_id payload sent \<longrightarrow>
         (\<exists>a. actions = a @ [Acquire, Recv (NewTask task_id payload),
                               Send (Acknowledgement pid task_id), Release]))
   \<and> (\<forall>pre m post. actions = pre @ Recv m # post \<longrightarrow>
         (\<exists>a task_id payload. m = NewTask task_id payload \<and> pre = a @ [Acquire]
            \<and> post = [Send (Acknowledgement pid task_id), Release]
            \<and> ((\<exists>sent. result = Fetched task_id payload sent) \<or> (\<exists>e. result = Raised e))))"
proof (induction obs arbitrary: result actions rest)
  case Nil
  then show ?case by simp
next
  case (Cons ob obs)
  show ?case
  proof (cases ob)
    case Idle
    with Cons.prems show ?thesis by auto
  next
    case (Poll_failed e)
    with Cons.prems show ?thesis by auto
  next
    case Lost
    obtain r1 a1 rest1 where f1: "fetch_task pid obs = (r1, (a1 :: ('a, 'b) action list), rest1)"
      by (cases "fetch_task pid obs :: 'a fetched \<times> ('a, 'b) action list \<times> 'a observation list")
    from Cons.prems Lost f1 have eq: "result = r1" "actions = [Acquire, Release] @ a1" by simp_all
    note ih = Cons.IH[OF f1]
    have a: "\<forall>task_id r. Send (Results task_id r) \<notin> set actions"
      using ih by (simp add: eq)
    have b: "\<forall>task_id payload sent. result = Fetched task_id payload sent \<longrightarrow>
         (\<exists>a. actions = a @ [Acquire, Recv (NewTask task_id payload),
                               Send (Acknowledgement pid task_id), Release])"
    proof (intro allI impI)
      fix task_id payload sent assume "result = Fetched task_id payload sent"
      with ih eq obtain a where
        "a1 = a @ [Acquire, Recv (NewTask task_id payload),
                   Send (Acknowledgement pid task_id), Release]"
        by blast
      then have "actions = ([Acquire, Release] @ a)
          @ [Acquire, Recv (NewTask task_id payload), Send (Acknowledgement pid task_id), Release]"
        by (simp add: eq)
      then show "\<exists>a. actions = a @ [Acquire, Recv (NewTask task_id payload),
                               Send (Acknowledgement pid task_id), Release]"
        by blast
    qed
    have c: "\<forall>pre m post. actions = pre @ Recv m # post \<longrightarrow>
         (\<exists>a task_id payload. m = NewTask task_id payload \<and> pre = a @ [Acquire]
            \<and> post = [Send (Acknowledgement pid task_id), Release]
            \<and> ((\<exists>sent. result = Fetched task_id payload sent) \<or> (\<exists>e. result = Raised e)))"
    proof (intro allI impI)
      fix pre m post assume "actions = pre @ Recv m # post"
      then have "[Acquire, Release] @ a1 = pre @ Recv m # post" by (simp add: eq)
      from in_append_cases[OF this] obtain k where
        k: "pre = [Acquire, Release] @ k" "a1 = k @ Recv m # post"
        by (auto simp: Cons_eq_append_conv)
      with ih obtain a task_id payload where
        "m = NewTask task_id payload" "k = a @ [Acquire]"
        "post = [Send (Acknowledgement pid task_id), Release]"
        "(\<exists>sent. r1 = Fetched task_id payload sent) \<or> (\<exists>e. r1 = Raised e)" by blast
      with k eq show "\<exists>a task_id payload. m = NewTask task_id payload \<and> pre = a @ [Acquire]
            \<and> post = [Send (Acknowledgement pid task_id), Release]
            \<and> ((\<exists>sent. result = Fetched task_id payload sent) \<or> (\<exists>e. result = Raised e))"
        by auto
    qed
    from a b c show ?thesis by blast
  next
    case (Transaction_failed e)
    with Cons.prems show ?thesis
      by (auto simp: Cons_eq_append_conv append_eq_Cons_conv)
  next
    case (Ack_failed task_id payload e)
    with Cons.prems show ?thesis
      by (auto simp: Cons_eq_append_conv append_eq_Cons_conv)
  next
    case (Claimed task_id payload sent)
    with Cons.prems show ?thesis
      by (auto simp: Cons_eq_append_conv append_eq_Cons_conv)
  qed
qed

lemma sends_append: "sends (xs @ ys) = sends xs @ sends ys"
  by (induction xs rule: sends.induct) simp_all

lemma sends_decomp:
  "sends tr = ms @ x # ms' \<Longrightarrow>
   \<exists>pre post. tr = pre @ Send x # post \<and> sends pre = ms \<and> sends post = ms'"
proof (induction tr arbitrary: ms)
  case Nil
  then show ?case by simp
next
  case (Cons a tr)
  show ?case
  proof (cases "\<exists>m. a = Send m")
    case True
    then obtain m where a: "a = Send m" by blast
    show ?thesis
    proof (cases "ms = []")
      case True
      with Cons.prems a have "a # tr = [] @ Send x # tr \<and> sends [] = ms \<and> sends tr = ms'"
        by simp
      then show ?thesis by blast
    next
      case False
      then obtain m' ms1 where ms: "ms = m' # ms1" by (cases ms) auto
      with Cons.prems a have "sends tr = ms1 @ x # ms'" and mm: "m' = m" by simp_all
      from Cons.IH[OF this(1)] obtain pre post where
        "tr = pre @ Send x # post" "sends pre = ms1" "sends post = ms'" by blast
      then have "a # tr = (a # pre) @ Send x # post \<and> sends (a # pre) = ms \<and> sends post = ms'"
        using a ms mm by simp
      then show ?thesis by blast
    qed
  next
    case False
    then have skip: "sends (a # ys) = sends ys" for ys by (cases a) simp_all
    with Cons.prems have "sends tr = ms @ x # ms'" by simp
    from Cons.IH[OF this] obtain pre post where
      "tr = pre @ Send x # post" "sends pre = ms" "sends post = ms'" by blast
    then have "a # tr = (a # pre) @ Send x # post \<and> sends (a # pre) = ms \<and> sends post = ms'"
      using skip by simp
    then show ?thesis by blast
  qed
qed

text \<open>The loop of the worker, unfolded at a task it claims and at a race it loses.\<close>

lemma worker_loop_claimed:
  "task_limit params = 0 \<or> n < task_limit params \<Longrightarrow>
   worker_loop execute pid params n (Claimed task_id payload sent # obs) =
     [Acquire, Recv (NewTask task_id payload), Send (Acknowledgement pid task_id), Release,
      Execute payload]
     @ (case execute payload of
          None \<Rightarrow> []
        | Some results \<Rightarrow>
            Send (Results task_id results)
              # (case sent of
                   None \<Rightarrow> worker_loop execute pid params (Suc n) obs
                 | Some e \<Rightarrow> [channel_failure e]))"
  by (subst worker_loop.simps) (simp split: option.splits)

lemma worker_loop_lost:
  "task_limit params = 0 \<or> n < task_limit params \<Longrightarrow>
   worker_loop execute pid params n (Lost # obs) =
     [Acquire, Release] @ worker_loop execute pid params n obs"
  by (subst worker_loop.simps, subst (2) worker_loop.simps)
     (simp split: prod.splits fetched.splits option.splits)

lemma worker_loop_trace:
  "(\<forall>pre task_id r post.
      worker_loop execute pid params n obs = pre @ Send (Results task_id r) # post \<longrightarrow>
      (\<exists>a payload. pre = a @ [Acquire, Recv (NewTask task_id payload),
                                 Send (Acknowledgement pid task_id), Release, Execute payload]
         \<and> execute payload = Some r))
   \<and> (\<forall>pre m post.
      worker_loop execute pid params n obs = pre @ Recv m # post \<longrightarrow>
      (\<exists>a task_id payload post'. m = NewTask task_id payload \<and> pre = a @ [Acquire]
         \<and> post = Send (Acknowledgement pid task_id) # Release # post'
         \<and> ((\<exists>post''. post' = Execute payload # post'') \<or> (\<exists>e. post' = [channel_failure e]))))"
proof (induction execute pid params n obs rule: worker_loop.induct)
  case (1 execute pid params n obs)
  let ?tr = "worker_loop execute pid params n obs"
  let ?P1 = "\<lambda>tr. \<forall>pre task_id r post.
      tr = pre @ Send (Results task_id r) # post \<longrightarrow>
      (\<exists>a payload. pre = a @ [Acquire, Recv (NewTask task_id payload),
                                 Send (Acknowledgement pid task_id), Release, Execute payload]
         \<and> execute payload = Some r)"
  let ?P2 = "\<lambda>tr. \<forall>pre m post.
      tr = pre @ Recv m # post \<longrightarrow>
      (\<exists>a task_id payload post'. m = NewTask task_id payload \<and> pre = a @ [Acquire]
         \<and> post = Send (Acknowledgement pid task_id) # Release # post'
         \<and> ((\<exists>post''. post' = Execute payload # post'') \<or> (\<exists>e. post' = [channel_failure e])))"
  show ?case
  proof (cases "task_limit params = 0 \<or> n < task_limit params")
    case False
    then have "?tr = (if deinitializer params = Some False then [Os_exit 1] else [Return])"
      by (subst worker_loop.simps) simp
    then have "?tr = [Os_exit 1] \<or> ?tr = [Return]" by presburger
    then show ?thesis by (auto simp: Cons_eq_append_conv append_eq_Cons_conv)
  next
    case True
    obtain result actions rest where
      f: "fetch_task pid obs = (result, (actions :: ('a, 'b) action list), rest)"
      by (cases "fetch_task pid obs :: 'a fetched \<times> ('a, 'b) action list \<times> 'a observation list")
    note fa = fetch_task_actions[OF f]
    from fa have nores: "\<And>task_id r. Send (Results task_id r) \<notin> set actions" by blast
    from fa have recv: "\<And>pre m post. actions = pre @ Recv m # post \<Longrightarrow>
         \<exists>a task_id payload. m = NewTask task_id payload \<and> pre = a @ [Acquire]
            \<and> post = [Send (Acknowledgement pid task_id), Release]
            \<and> ((\<exists>sent. result = Fetched task_id payload sent) \<or> (\<exists>e. result = Raised e))"
      by blast
    have nores_decomp: "\<not> (\<exists>k. actions = pre @ Send (Results tid r) # k)" for pre tid r
      using nores[of tid r] by auto
    show ?thesis
    proof (cases result)
      case (Fetched task_id payload sent)
      from fa Fetched obtain a0 where
        a0: "actions = a0 @ [Acquire, Recv (NewTask task_id payload),
                             Send (Acknowledgement pid task_id), Release]"
        by blast
      have in_fetch: "\<exists>a. m = NewTask task_id payload \<and> pre = a @ [Acquire]
          \<and> k = [Send (Acknowledgement pid task_id), Release]"
        if "actions = pre @ Recv m # k" for pre m k
        using recv[OF that] Fetched by auto
      text \<open>The trace is the fetch, the execution and a tail; both properties follow from
        the tail's.\<close>
      have build: "?P1 ?tr \<and> ?P2 ?tr"
        if tr: "?tr = actions @ Execute payload # tail"
          and t1: "\<And>pre tid r post. tail = pre @ Send (Results tid r) # post \<Longrightarrow>
              (pre = [] \<and> tid = task_id \<and> execute payload = Some r)
              \<or> (\<exists>a payload'. pre = a @ [Acquire, Recv (NewTask tid payload'),
                                 Send (Acknowledgement pid tid), Release, Execute payload']
                    \<and> execute payload' = Some r)"
          and t2: "\<And>pre m post. tail = pre @ Recv m # post \<Longrightarrow>
              (\<exists>a tid payload' post'. m = NewTask tid payload' \<and> pre = a @ [Acquire]
                 \<and> post = Send (Acknowledgement pid tid) # Release # post'
                 \<and> ((\<exists>post''. post' = Execute payload' # post'')
                     \<or> (\<exists>e. post' = [channel_failure e])))"
        for tail
      proof -
        have "\<exists>a payload'. pre = a @ [Acquire, Recv (NewTask tid payload'),
                                 Send (Acknowledgement pid tid), Release, Execute payload']
               \<and> execute payload' = Some r"
          if eq: "?tr = pre @ Send (Results tid r) # post" for pre tid r post
        proof -
          from eq tr have "actions @ (Execute payload # tail) = pre @ Send (Results tid r) # post"
            by simp
          with nores_decomp[of pre tid r] obtain k where
            k: "pre = actions @ k" "Execute payload # tail = k @ Send (Results tid r) # post"
            using in_append_cases[of actions "Execute payload # tail" pre
                "Send (Results tid r)" post]
            by blast
          from k(2) obtain k' where k': "k = Execute payload # k'"
            "tail = k' @ Send (Results tid r) # post"
            by (cases k) auto
          from t1[OF k'(2)] show ?thesis
          proof
            assume "k' = [] \<and> tid = task_id \<and> execute payload = Some r"
            with k(1) k'(1) a0 show ?thesis by simp
          next
            assume "\<exists>a payload'. k' = a @ [Acquire, Recv (NewTask tid payload'),
                                 Send (Acknowledgement pid tid), Release, Execute payload']
                    \<and> execute payload' = Some r"
            then obtain a payload' where
              "k' = a @ [Acquire, Recv (NewTask tid payload'),
                                 Send (Acknowledgement pid tid), Release, Execute payload']"
              "execute payload' = Some r" by blast
            with k(1) k'(1) have
              "pre = (actions @ Execute payload # a) @ [Acquire, Recv (NewTask tid payload'),
                                 Send (Acknowledgement pid tid), Release, Execute payload']
               \<and> execute payload' = Some r" by simp
            then show ?thesis by blast
          qed
        qed
        moreover have "\<exists>a tid payload' post'. m = NewTask tid payload' \<and> pre = a @ [Acquire]
                 \<and> post = Send (Acknowledgement pid tid) # Release # post'
                 \<and> ((\<exists>post''. post' = Execute payload' # post'')
                     \<or> (\<exists>e. post' = [channel_failure e]))"
          if eq: "?tr = pre @ Recv m # post" for pre m post
        proof -
          from eq tr have "actions @ (Execute payload # tail) = pre @ Recv m # post" by simp
          from in_append_cases[OF this]
          consider (fetch) k where "actions = pre @ Recv m # k"
              "post = k @ Execute payload # tail"
            | (after) k where "pre = actions @ k" "Execute payload # tail = k @ Recv m # post"
            by blast
          then show ?thesis
          proof cases
            case fetch
            from in_fetch[OF fetch(1)] fetch(2) show ?thesis by auto
          next
            case after
            from after(2) obtain k' where k': "k = Execute payload # k'"
              "tail = k' @ Recv m # post"
              by (cases k) auto
            from t2[OF k'(2)] obtain a tid payload' post' where
              "m = NewTask tid payload'" "k' = a @ [Acquire]"
              "post = Send (Acknowledgement pid tid) # Release # post'"
              "(\<exists>post''. post' = Execute payload' # post'') \<or> (\<exists>e. post' = [channel_failure e])"
              by blast
            with after(1) k'(1) have "m = NewTask tid payload'
              \<and> pre = (actions @ Execute payload # a) @ [Acquire]
              \<and> post = Send (Acknowledgement pid tid) # Release # post'
              \<and> ((\<exists>post''. post' = Execute payload' # post'') \<or> (\<exists>e. post' = [channel_failure e]))"
              by simp
            then show ?thesis by blast
          qed
        qed
        ultimately show ?thesis by blast
      qed
      show ?thesis
      proof (cases "execute payload")
        case None
        have "?tr = actions @ Execute payload # []"
          using True f Fetched None by (subst worker_loop.simps) simp
        from build[OF this] show ?thesis by simp
      next
        case (Some r0)
        show ?thesis
        proof (cases sent)
          case (Some e)
          have "?tr = actions @ Execute payload # [Send (Results task_id r0), channel_failure e]"
            using True f Fetched \<open>execute payload = Some r0\<close> Some
            by (subst worker_loop.simps) simp
          from build[OF this] \<open>execute payload = Some r0\<close> show ?thesis
            by (auto simp: Cons_eq_append_conv append_eq_Cons_conv)
        next
          case None
          let ?tr' = "worker_loop execute pid params (Suc n) rest"
          have tr: "?tr = actions @ Execute payload # (Send (Results task_id r0) # ?tr')"
            using True f Fetched \<open>execute payload = Some r0\<close> None
            by (subst worker_loop.simps) simp
          note ih = 1[OF True f[symmetric] Fetched refl \<open>execute payload = Some r0\<close> None]
          have t1: "(pre = [] \<and> tid = task_id \<and> execute payload = Some r)
              \<or> (\<exists>a payload'. pre = a @ [Acquire, Recv (NewTask tid payload'),
                                 Send (Acknowledgement pid tid), Release, Execute payload']
                    \<and> execute payload' = Some r)"
            if eq: "Send (Results task_id r0) # ?tr' = pre @ Send (Results tid r) # post"
            for pre tid r post
          proof (cases pre)
            case Nil
            with eq \<open>execute payload = Some r0\<close> show ?thesis by simp
          next
            case (Cons x pre')
            with eq have "?tr' = pre' @ Send (Results tid r) # post"
              and x: "x = Send (Results task_id r0)" by simp_all
            with ih obtain a payload' where
              "pre' = a @ [Acquire, Recv (NewTask tid payload'),
                                 Send (Acknowledgement pid tid), Release, Execute payload']"
              "execute payload' = Some r" by blast
            with Cons have "pre = (x # a) @ [Acquire, Recv (NewTask tid payload'),
                                 Send (Acknowledgement pid tid), Release, Execute payload']
              \<and> execute payload' = Some r" by simp
            then show ?thesis by blast
          qed
          have t2: "\<exists>a tid payload' post'. m = NewTask tid payload' \<and> pre = a @ [Acquire]
                 \<and> post = Send (Acknowledgement pid tid) # Release # post'
                 \<and> ((\<exists>post''. post' = Execute payload' # post'')
                     \<or> (\<exists>e. post' = [channel_failure e]))"
            if eq: "Send (Results task_id r0) # ?tr' = pre @ Recv m # post" for pre m post
          proof -
            from eq obtain pre' where pre': "pre = Send (Results task_id r0) # pre'"
              "?tr' = pre' @ Recv m # post"
              by (cases pre) auto
            with ih obtain a tid payload' post' where
              "m = NewTask tid payload'" "pre' = a @ [Acquire]"
              "post = Send (Acknowledgement pid tid) # Release # post'"
              "(\<exists>post''. post' = Execute payload' # post'') \<or> (\<exists>e. post' = [channel_failure e])"
              by blast
            with pre'(1) have "m = NewTask tid payload'
              \<and> pre = (Send (Results task_id r0) # a) @ [Acquire]
              \<and> post = Send (Acknowledgement pid tid) # Release # post'
              \<and> ((\<exists>post''. post' = Execute payload' # post'') \<or> (\<exists>e. post' = [channel_failure e]))"
              by simp
            then show ?thesis by blast
          qed
          from build[OF tr t1 t2] show ?thesis by simp
        qed
      qed
    next
      case Nothing
      have tr: "?tr = actions @ [Uncaught]"
        using True f Nothing by (subst worker_loop.simps) simp
      have "False" if "?tr = pre @ Send (Results tid r) # post" for pre tid r post
        using that nores[of tid r] unfolding tr
        by (auto dest!: in_append_cases simp: Cons_eq_append_conv)
      moreover have "False" if "?tr = pre @ Recv m # post" for pre m post
        using that recv Nothing unfolding tr
        by (auto dest!: in_append_cases simp: Cons_eq_append_conv)
      ultimately show ?thesis by blast
    next
      case (Raised e)
      have tr: "?tr = actions @ [channel_failure e]"
        using True f Raised by (subst worker_loop.simps) simp
      have "False" if "?tr = pre @ Send (Results tid r) # post" for pre tid r post
        using that nores[of tid r] unfolding tr
        by (auto dest!: in_append_cases simp: Cons_eq_append_conv)
      moreover have "\<exists>a tid payload' post'. m = NewTask tid payload' \<and> pre = a @ [Acquire]
                 \<and> post = Send (Acknowledgement pid tid) # Release # post'
                 \<and> ((\<exists>post''. post' = Execute payload' # post'')
                     \<or> (\<exists>e. post' = [channel_failure e]))"
        if eq: "?tr = pre @ Recv m # post" for pre m post
      proof -
        from eq tr have "actions @ [channel_failure e] = pre @ Recv m # post" by simp
        from in_append_cases[OF this] obtain k where
          k: "actions = pre @ Recv m # k" "post = k @ [channel_failure e]"
          by (auto simp: Cons_eq_append_conv)
        from recv[OF k(1)] k(2) show ?thesis by auto
      qed
      ultimately show ?thesis by blast
    next
      case Waiting
      have tr: "?tr = actions"
        using True f Waiting by (subst worker_loop.simps) simp
      have "False" if "?tr = pre @ Send (Results tid r) # post" for pre tid r post
        using that nores[of tid r] unfolding tr by auto
      moreover have "False" if "?tr = pre @ Recv m # post" for pre m post
        using that recv Waiting unfolding tr by auto
      ultimately show ?thesis by blast
    qed
  qed
qed

text \<open>
  C8. A worker that claims a task receives it under the lock, sends the
  acknowledgement with this task's id before it releases the lock, executes the payload
  after that, and sends the results of this task after the execution. In the trace of
  a worker every \<^verbatim>\<open>recv\<close> is preceded by the acquisition of the lock and followed by the
  acknowledgement of the task received, the release, and the execution (or the end of
  the process, when the acknowledgement could not be sent); every \<^verbatim>\<open>Results\<close> message
  follows at once upon the reception, the acknowledgement and the execution of its task.
  Hence in the sequence of messages the worker sends, the message before the
  \<^verbatim>\<open>Results\<close> of a task is the \<^verbatim>\<open>Acknowledgement\<close> of that task.
\<close>

theorem worker_acknowledges_before_results:
  "(task_limit params = 0 \<or> n < task_limit params \<longrightarrow>
      worker_loop execute pid params n (Claimed task_id payload sent # obs) =
        [Acquire, Recv (NewTask task_id payload), Send (Acknowledgement pid task_id), Release,
         Execute payload]
        @ (case execute payload of
             None \<Rightarrow> []
           | Some results \<Rightarrow>
               Send (Results task_id results)
                 # (case sent of
                      None \<Rightarrow> worker_loop execute pid params (Suc n) obs
                    | Some e \<Rightarrow> [channel_failure e]))
      \<and> worker_loop execute pid params n (Lost # obs) =
          [Acquire, Release] @ worker_loop execute pid params n obs)
   \<and> (initializer params \<noteq> Some False \<longrightarrow>
        worker_process execute pid params obs = worker_loop execute pid params 0 obs)
   \<and> (\<forall>pre tid r post.
      worker_process execute pid params obs = pre @ Send (Results tid r) # post \<longrightarrow>
      (\<exists>a p. pre = a @ [Acquire, Recv (NewTask tid p), Send (Acknowledgement pid tid), Release,
                           Execute p]
         \<and> execute p = Some r))
   \<and> (\<forall>pre m post.
      worker_process execute pid params obs = pre @ Recv m # post \<longrightarrow>
      (\<exists>a tid p post'. m = NewTask tid p \<and> pre = a @ [Acquire]
         \<and> post = Send (Acknowledgement pid tid) # Release # post'
         \<and> ((\<exists>post''. post' = Execute p # post'') \<or> (\<exists>e. post' = [channel_failure e]))))
   \<and> (\<forall>ms tid r ms'.
      sends (worker_process execute pid params obs) = ms @ Results tid r # ms' \<longrightarrow>
      (\<exists>ms0. ms = ms0 @ [Acknowledgement pid tid]))"
proof -
  have head: "task_limit params = 0 \<or> n < task_limit params \<longrightarrow>
      worker_loop execute pid params n (Claimed task_id payload sent # obs) =
        [Acquire, Recv (NewTask task_id payload), Send (Acknowledgement pid task_id), Release,
         Execute payload]
        @ (case execute payload of
             None \<Rightarrow> []
           | Some results \<Rightarrow>
               Send (Results task_id results)
                 # (case sent of
                      None \<Rightarrow> worker_loop execute pid params (Suc n) obs
                    | Some e \<Rightarrow> [channel_failure e]))
      \<and> worker_loop execute pid params n (Lost # obs) =
          [Acquire, Release] @ worker_loop execute pid params n obs"
    using worker_loop_claimed[of params n execute pid task_id payload sent obs]
      worker_loop_lost[of params n execute pid obs]
    by blast
  have wp: "initializer params \<noteq> Some False \<longrightarrow>
        worker_process execute pid params obs = worker_loop execute pid params 0 obs"
    by (simp add: worker_process_def)
  have tr: "(\<forall>pre tid r post.
      worker_process execute pid params obs = pre @ Send (Results tid r) # post \<longrightarrow>
      (\<exists>a p. pre = a @ [Acquire, Recv (NewTask tid p), Send (Acknowledgement pid tid), Release,
                           Execute p]
         \<and> execute p = Some r))
   \<and> (\<forall>pre m post.
      worker_process execute pid params obs = pre @ Recv m # post \<longrightarrow>
      (\<exists>a tid p post'. m = NewTask tid p \<and> pre = a @ [Acquire]
         \<and> post = Send (Acknowledgement pid tid) # Release # post'
         \<and> ((\<exists>post''. post' = Execute p # post'') \<or> (\<exists>e. post' = [channel_failure e]))))"
  proof (cases "initializer params = Some False")
    case True
    then have "worker_process execute pid params obs = [Os_exit 1]"
      by (simp add: worker_process_def)
    then show ?thesis by (auto simp: Cons_eq_append_conv append_eq_Cons_conv)
  next
    case False
    then have "worker_process execute pid params obs = worker_loop execute pid params 0 obs"
      by (simp add: worker_process_def)
    then show ?thesis
      using worker_loop_trace[of execute pid params 0 obs] by simp
  qed
  have "\<exists>ms0. ms = ms0 @ [Acknowledgement pid tid]"
    if "sends (worker_process execute pid params obs) = ms @ Results tid r # ms'"
    for ms tid r ms'
  proof -
    from sends_decomp[OF that] obtain pre post where
      pre: "worker_process execute pid params obs = pre @ Send (Results tid r) # post"
      and ms: "sends pre = ms" by blast
    from tr pre obtain a p where
      "pre = a @ [Acquire, Recv (NewTask tid p), Send (Acknowledgement pid tid), Release, Execute p]"
      by blast
    then have "sends pre = sends a @ [Acknowledgement pid tid]"
      by (simp add: sends_append)
    with ms show ?thesis by blast
  qed
  with head wp tr show ?thesis by blast
qed

theorem worker_acknowledges_before_results_witness:
  "worker_process (\<lambda>p. if p = '''' then None else Some (length p)) 7
     \<lparr>initializer = None, deinitializer = Some True, task_limit = 2\<rparr>
     [Lost, Claimed 4 ''ab'' None, Claimed 5 ''xyz'' None, Claimed 6 ''q'' None]
   = [Acquire, Release, Acquire, Recv (NewTask 4 ''ab''), Send (Acknowledgement 7 4), Release,
      Execute ''ab'']
     @ Send (Results 4 2)
     # [Acquire, Recv (NewTask 5 ''xyz''), Send (Acknowledgement 7 5), Release, Execute ''xyz'',
        Send (Results 5 3), Return]
   \<and> sends (worker_process (\<lambda>p. if p = '''' then None else Some (length p)) 7
           \<lparr>initializer = None, deinitializer = Some True, task_limit = 2\<rparr>
           [Lost, Claimed 4 ''ab'' None, Claimed 5 ''xyz'' None, Claimed 6 ''q'' None])
     = [Acknowledgement 7 4] @ Results 4 2 # [Acknowledgement 7 5, Results 5 3]
   \<and> worker_loop (\<lambda>p. if p = '''' then None else Some (length p)) 7
       \<lparr>initializer = None, deinitializer = None, task_limit = 0\<rparr> 0
       [Claimed 4 ''ab'' (Some (EnvironmentError (Some 32))), Claimed 5 ''xyz'' None]
     = [Acquire, Recv (NewTask 4 ''ab''), Send (Acknowledgement 7 4), Release, Execute ''ab'',
        Send (Results 4 2), Os_exit 32]
   \<and> worker_process (\<lambda>p. if p = '''' then None else Some (length p)) 7
       \<lparr>initializer = None, deinitializer = None, task_limit = 0\<rparr>
       [Ack_failed 4 ''ab'' EOFError, Claimed 5 ''xyz'' None]
     = [Acquire] @ Recv (NewTask 4 ''ab'') # [Send (Acknowledgement 7 4), Release, Uncaught]"
  using worker_acknowledges_before_results
    [of "\<lparr>initializer = None, deinitializer = Some True, task_limit = 2\<rparr>" 0
        "\<lambda>p. if p = '''' then None else Some (length p)" 7 4 "''ab''" None
        "[Claimed 5 ''xyz'' None, Claimed 6 ''q'' None]"]
  by (simp add: worker_process_def worker_loop.simps)

end
